theory Spec2Isabelle
  imports Main "HOL-Library.Word" "HOL-Library.Char_ord" "HOL-Library.List_Lexorder"
begin

section \<open>Python strings\<close>

text \<open>
  A Python \<open>str\<close> is modelled as a \<open>string\<close>, one \<open>char\<close> per code point, which
  covers the code points U+0000 to U+00FF. The character classes below are the ones
  CPython's Unicode database gives on that range: \<open>str.isspace\<close> (also the regular
  expression class \<open>\s\<close>), \<open>str.isdigit\<close>, the regular expression class \<open>\w\<close>
  (alphanumeric or underscore), and the cased characters that \<open>str.istitle\<close> and
  \<open>str.lower\<close> look at.
\<close>

definition cp :: "char \<Rightarrow> nat" where
  "cp c = of_char c"

definition in_range :: "nat \<Rightarrow> nat \<Rightarrow> char \<Rightarrow> bool" where
  "in_range lo hi c = (lo \<le> cp c \<and> cp c \<le> hi)"

definition isspace_chr :: "char \<Rightarrow> bool" where
  "isspace_chr c = (in_range 9 13 c \<or> in_range 28 32 c \<or> cp c = 133 \<or> cp c = 160)"

definition isdigit_chr :: "char \<Rightarrow> bool" where
  "isdigit_chr c = (in_range 48 57 c \<or> cp c = 178 \<or> cp c = 179 \<or> cp c = 185)"

definition isupper_chr :: "char \<Rightarrow> bool" where
  "isupper_chr c = (in_range 65 90 c \<or> in_range 192 214 c \<or> in_range 216 222 c)"

definition islower_chr :: "char \<Rightarrow> bool" where
  "islower_chr c = (in_range 97 122 c \<or> cp c = 170 \<or> cp c = 181 \<or> cp c = 186
     \<or> in_range 223 246 c \<or> in_range 248 255 c)"

definition isnumeric_chr :: "char \<Rightarrow> bool" where
  "isnumeric_chr c = (isdigit_chr c \<or> in_range 188 190 c)"

definition word_chr :: "char \<Rightarrow> bool" where
  \<comment> \<open>the class \<open>\w\<close>\<close>
  "word_chr c = (isupper_chr c \<or> islower_chr c \<or> isnumeric_chr c \<or> cp c = 95)"

definition ascii_letter :: "char \<Rightarrow> bool" where
  \<comment> \<open>the class \<open>[a-zA-Z]\<close>\<close>
  "ascii_letter c = (in_range 97 122 c \<or> in_range 65 90 c)"

definition lower_chr :: "char \<Rightarrow> char" where
  "lower_chr c = (if isupper_chr c then char_of (cp c + 32) else c)"

definition lower :: "string \<Rightarrow> string" where
  "lower s = map lower_chr s"

definition newline :: char where
  "newline = CHR 0x0A"

definition carriage_return :: char where
  "carriage_return = CHR 0x0D"

text \<open>\<open>str.istitle\<close>: the loop of CPython over the characters, with its two flags.\<close>

fun istitle_loop :: "bool \<Rightarrow> bool \<Rightarrow> string \<Rightarrow> bool" where
  "istitle_loop cased previous_is_cased [] = cased"
| "istitle_loop cased previous_is_cased (ch # s) =
     (if isupper_chr ch then
        (if previous_is_cased then False else istitle_loop True True s)
      else if islower_chr ch then
        (if \<not> previous_is_cased then False else istitle_loop True True s)
      else istitle_loop cased False s)"

definition istitle :: "string \<Rightarrow> bool" where
  "istitle s = istitle_loop False False s"

text \<open>\<open>str.strip()\<close> and \<open>str.split()\<close> without arguments.\<close>

definition strip :: "string \<Rightarrow> string" where
  "strip s = rev (dropWhile isspace_chr (rev (dropWhile isspace_chr s)))"

fun split_from :: "string \<Rightarrow> string \<Rightarrow> string list" where
  "split_from cur [] = (if cur = [] then [] else [cur])"
| "split_from cur (c # s) =
     (if isspace_chr c then (if cur = [] then split_from [] s else cur # split_from [] s)
      else split_from (cur @ [c]) s)"

definition split :: "string \<Rightarrow> string list" where
  "split s = split_from [] s"

text \<open>
  The exceptions of the model. Indexing a string raises \<open>IndexError\<close> out of range;
  negative indices count from the end.
\<close>

datatype py_error =
  IndexError | ValueError | OSError | CsvError | CursesError | KeyboardInterrupt | EOFError

definition getitem :: "string \<Rightarrow> int \<Rightarrow> py_error + char" where
  "getitem s i =
     (let n = int (length s); j = (if i < 0 then n + i else i)
      in if 0 \<le> j \<and> j < n then Inr (s ! nat j) else Inl IndexError)"

section \<open>The regular expressions of the word extractor\<close>

text \<open>\<open>re.split(r"[.!?]", text)\<close>: one piece more than there are terminators.\<close>

definition terminator :: "char \<Rightarrow> bool" where
  "terminator c = (c = CHR ''.'' \<or> c = CHR ''!'' \<or> c = CHR ''?'')"

fun re_split_from :: "string \<Rightarrow> string \<Rightarrow> string list" where
  "re_split_from cur [] = [cur]"
| "re_split_from cur (c # s) =
     (if terminator c then cur # re_split_from [] s else re_split_from (cur @ [c]) s)"

definition re_split_sentences :: "string \<Rightarrow> string list" where
  "re_split_sentences text = re_split_from [] text"

text \<open>\<open>re.sub(r'\s+', ' ', sentence)\<close>: every maximal run of whitespace becomes one space.\<close>

fun collapse_from :: "bool \<Rightarrow> string \<Rightarrow> string" where
  "collapse_from in_run [] = []"
| "collapse_from in_run (c # s) =
     (if isspace_chr c then
        (if in_run then collapse_from True s else CHR '' '' # collapse_from True s)
      else c # collapse_from False s)"

definition collapse_ws :: "string \<Rightarrow> string" where
  "collapse_ws s = collapse_from False s"

definition replace_chr :: "char \<Rightarrow> char \<Rightarrow> string \<Rightarrow> string" where
  "replace_chr a b s = map (\<lambda>c. if c = a then b else c) s"

definition clean_sentence :: "string \<Rightarrow> string" where
  "clean_sentence sentence =
     strip (replace_chr carriage_return (CHR '' '')
             (replace_chr newline (CHR '' '') (collapse_ws sentence)))"

text \<open>\<open>re.sub(r"[^\w\s]", "", word)\<close>.\<close>

definition clean_word :: "string \<Rightarrow> string" where
  "clean_word word = filter (\<lambda>c. word_chr c \<or> isspace_chr c) word"

text \<open>
  \<open>re.search(r"(.)\1{3,}", word)\<close> finds a character other than a newline (the dot does
  not match a newline) followed by at least three copies of itself.
\<close>

primrec copies_follow :: "char \<Rightarrow> nat \<Rightarrow> string \<Rightarrow> bool" where
  "copies_follow c 0 s = True"
| "copies_follow c (Suc n) s = (case s of [] \<Rightarrow> False | d # r \<Rightarrow> d = c \<and> copies_follow c n r)"

fun re_search_repeat :: "string \<Rightarrow> bool" where
  "re_search_repeat [] = False"
| "re_search_repeat (c # s) = ((c \<noteq> newline \<and> copies_follow c 3 s) \<or> re_search_repeat s)"

text \<open>
  Python values that \<open>is_valid_word\<close> handles: booleans, \<open>None\<close>, and the match
  object of \<open>re.match\<close> (kept as the text it matched). Only \<open>False\<close> and
  \<open>None\<close> are falsy.
\<close>

datatype pyval = PyBool bool | PyNone | PyMatch string

fun truthy :: "pyval \<Rightarrow> bool" where
  "truthy (PyBool b) = b"
| "truthy PyNone = False"
| "truthy (PyMatch m) = True"

text \<open>
  \<open>re.match(r"^[a-zA-Z]+$", word)\<close>: the greedy run of letters must be non-empty and
  reach the end of the string, or the newline that ends the string (where \<open>$\<close> matches
  too). The result is a match object or \<open>None\<close>.
\<close>

definition re_match_letters :: "string \<Rightarrow> pyval" where
  "re_match_letters word =
     (let run = takeWhile ascii_letter word; rest = dropWhile ascii_letter word
      in if run \<noteq> [] \<and> (rest = [] \<or> rest = [newline]) then PyMatch run else PyNone)"

section \<open>The validity filter\<close>

definition number_words :: "string set" where
  "number_words = set [''zero'', ''one'', ''two'', ''three'', ''four'', ''five'', ''six'',
     ''seven'', ''eight'', ''nine'', ''ten'', ''eleven'', ''twelve'', ''thirteen'',
     ''fourteen'', ''fifteen'', ''sixteen'', ''seventeen'', ''eighteen'', ''nineteen'',
     ''twenty'']"

text \<open>
  \<open>is_valid_word\<close> returns the value of an \<open>and\<close> chain: the first falsy operand,
  or the last operand. The operands are booleans except the result of \<open>re.match\<close>.
  The dictionary \<open>english_words\<close> is loaded from the NLTK corpus at import time; here
  it is a parameter.
\<close>

definition is_valid_word :: "string set \<Rightarrow> string \<Rightarrow> py_error + pyval" where
  "is_valid_word english_words word =
     (if \<not> 4 \<le> length word then Inr (PyBool False)
      else (case getitem word 0 of Inl e \<Rightarrow> Inl e | Inr first \<Rightarrow>
        if isdigit_chr first then Inr (PyBool False)
        else (case getitem word (- 1) of Inl e \<Rightarrow> Inl e | Inr final \<Rightarrow>
          if isdigit_chr final then Inr (PyBool False)
          else if word \<in> number_words then Inr (PyBool False)
          else if re_search_repeat word then Inr (PyBool False)
          else if \<not> truthy (re_match_letters word) then Inr (re_match_letters word)
          else if istitle word then Inr (PyBool False)
          else Inr (PyBool (word \<in> english_words)))))"

text \<open>The test \<open>if is_valid_word(word_cleaned):\<close> of the caller.\<close>

definition accepts :: "string set \<Rightarrow> string \<Rightarrow> bool" where
  "accepts english_words word =
     (case is_valid_word english_words word of Inl e \<Rightarrow> False | Inr v \<Rightarrow> truthy v)"

text \<open>
  The validity filter as the specification words it: the seven conditions on a cleaned
  token, title-cased meaning a capital first letter followed by small letters only.
\<close>

definition has_run4 :: "string \<Rightarrow> bool" where
  "has_run4 w = (\<exists>i \<in> {0..<length w}. i + 4 \<le> length w \<and>
     w ! (i + 1) = w ! i \<and> w ! (i + 2) = w ! i \<and> w ! (i + 3) = w ! i)"

definition title_cased :: "string \<Rightarrow> bool" where
  "title_cased w = (w \<noteq> [] \<and> isupper_chr (hd w) \<and> list_all islower_chr (tl w))"

definition valid_spec :: "string set \<Rightarrow> string \<Rightarrow> bool" where
  "valid_spec english_words w =
     (4 \<le> length w
      \<and> \<not> isdigit_chr (hd w) \<and> \<not> isdigit_chr (last w)
      \<and> w \<notin> number_words
      \<and> \<not> has_run4 w
      \<and> list_all ascii_letter w
      \<and> \<not> title_cased w
      \<and> w \<in> english_words)"

subsection \<open>The filter never raises\<close>

lemma getitem_empty: "getitem [] 0 = Inl IndexError"
  by (simp add: getitem_def)

lemma getitem_first: "w \<noteq> [] \<Longrightarrow> getitem w 0 = Inr (hd w)"
  by (cases w) (simp_all add: getitem_def)

lemma getitem_last: "w \<noteq> [] \<Longrightarrow> getitem w (- 1) = Inr (last w)"
  by (simp add: getitem_def Let_def last_conv_nth nat_diff_distrib' flip: of_nat_diff)

lemma re_match_letters_cases:
  "re_match_letters w = PyNone \<or> (\<exists>m. re_match_letters w = PyMatch m)"
  by (simp add: re_match_letters_def Let_def)

lemma is_valid_word_Inr: "\<exists>v. is_valid_word ew w = Inr v"
proof (cases "4 \<le> length w")
  case False
  then show ?thesis by (simp add: is_valid_word_def)
next
  case True
  then have ne: "w \<noteq> []" by auto
  show ?thesis by (simp add: is_valid_word_def getitem_first[OF ne] getitem_last[OF ne])
qed

text \<open>
  C10, as the code has it. Indexing the empty string raises (\<open>getitem_empty\<close>), and
  the length test that comes first keeps \<open>is_valid_word\<close> from doing so: on every
  string it returns, and what it returns is \<open>True\<close>, \<open>False\<close> or \<open>None\<close>
  (never the match object).
\<close>

theorem is_valid_word_total:
  "is_valid_word english_words w = Inr (PyBool True)
   \<or> is_valid_word english_words w = Inr (PyBool False)
   \<or> is_valid_word english_words w = Inr PyNone"
proof (cases "4 \<le> length w")
  case False
  then show ?thesis by (simp add: is_valid_word_def)
next
  case True
  then have ne: "w \<noteq> []" by auto
  show ?thesis
    using re_match_letters_cases[of w]
    by (auto simp: is_valid_word_def getitem_first[OF ne] getitem_last[OF ne])
qed

text \<open>
  C10, as stated, says the result is a boolean. On a token of five characters with a
  digit in the middle the chain stops at \<open>re.match\<close> and the result is \<open>None\<close>.
\<close>

theorem is_valid_word_returns_None:
  "is_valid_word (set [''quick'', ''brown'']) ''ab1cd'' = Inr PyNone"
  by code_simp

subsection \<open>The filter and its specification\<close>

lemma copies_follow_nth:
  "copies_follow c n s \<longleftrightarrow> n \<le> length s \<and> (\<forall>j<n. s ! j = c)"
proof (induction n arbitrary: s)
  case 0
  show ?case by simp
next
  case (Suc n)
  then show ?case by (auto split: list.splits simp: less_Suc_eq_0_disj)
qed

lemma copies_follow_3:
  "copies_follow c 3 s \<longleftrightarrow> 3 \<le> length s \<and> s ! 0 = c \<and> s ! 1 = c \<and> s ! 2 = c"
  by (auto simp: copies_follow_nth eval_nat_numeral less_Suc_eq)

lemma bex_upt_Suc: "(\<exists>i\<in>{0..<Suc n}. P i) = (P 0 \<or> (\<exists>i\<in>{0..<n}. P (Suc i)))"
proof
  assume "\<exists>i\<in>{0..<Suc n}. P i"
  then obtain i where i: "i < Suc n" "P i" by auto
  show "P 0 \<or> (\<exists>i\<in>{0..<n}. P (Suc i))"
  proof (cases i)
    case 0
    with i show ?thesis by simp
  next
    case (Suc k)
    with i show ?thesis by auto
  qed
next
  assume "P 0 \<or> (\<exists>i\<in>{0..<n}. P (Suc i))"
  then show "\<exists>i\<in>{0..<Suc n}. P i" by auto
qed

lemma has_run4_Nil: "has_run4 [] = False"
  by (simp add: has_run4_def)

lemma has_run4_Cons: "has_run4 (c # s) = (copies_follow c 3 s \<or> has_run4 s)"
  unfolding has_run4_def copies_follow_3 length_Cons bex_upt_Suc
  by (auto simp: numeral_2_eq_2 numeral_3_eq_3)

lemma re_search_repeat_run4: "newline \<notin> set w \<Longrightarrow> re_search_repeat w = has_run4 w"
  by (induction w) (auto simp: has_run4_Cons has_run4_Nil)

lemma letter_cased: "ascii_letter c \<Longrightarrow> isupper_chr c \<or> islower_chr c"
  by (auto simp: ascii_letter_def isupper_chr_def islower_chr_def in_range_def)

lemma upper_not_lower: "isupper_chr c \<Longrightarrow> \<not> islower_chr c"
  by (auto simp: isupper_chr_def islower_chr_def in_range_def)

lemma istitle_loop_cased:
  "list_all ascii_letter s \<Longrightarrow> istitle_loop True True s = list_all islower_chr s"
proof (induction s)
  case Nil
  show ?case by simp
next
  case (Cons c s)
  then show ?case using letter_cased[of c] upper_not_lower[of c] by auto
qed

lemma istitle_letters: "list_all ascii_letter w \<Longrightarrow> istitle w = title_cased w"
proof (cases w)
  case Nil
  then show ?thesis by (simp add: istitle_def title_cased_def)
next
  case (Cons c s)
  assume "list_all ascii_letter w"
  with Cons show ?thesis
    using letter_cased[of c] upper_not_lower[of c] istitle_loop_cased[of s]
    by (auto simp: istitle_def title_cased_def)
qed

lemma re_match_letters_truthy:
  assumes nl: "newline \<notin> set w"
  shows "truthy (re_match_letters w) \<longleftrightarrow> w \<noteq> [] \<and> list_all ascii_letter w"
proof (cases "list_all ascii_letter w")
  case True
  then have tw: "takeWhile ascii_letter w = w" and dw: "dropWhile ascii_letter w = []"
    by (simp_all add: list_all_iff)
  show ?thesis unfolding re_match_letters_def Let_def tw dw using True by simp
next
  case False
  then have "dropWhile ascii_letter w \<noteq> []" by (simp add: list_all_iff)
  moreover have "newline \<notin> set (dropWhile ascii_letter w)"
    using nl set_dropWhileD by fastforce
  then have "dropWhile ascii_letter w \<noteq> [newline]" by auto
  ultimately show ?thesis using False by (simp add: re_match_letters_def Let_def)
qed

lemma accepts_valid_spec:
  assumes nl: "newline \<notin> set w"
  shows "accepts d w = valid_spec d w"
proof (cases "4 \<le> length w")
  case False
  then show ?thesis by (simp add: accepts_def is_valid_word_def valid_spec_def)
next
  case True
  then have ne: "w \<noteq> []" by auto
  show ?thesis
    using True re_match_letters_truthy[OF nl] re_search_repeat_run4[OF nl] istitle_letters[of w]
    by (auto simp: accepts_def is_valid_word_def valid_spec_def
          getitem_first[OF ne] getitem_last[OF ne])
qed

lemma split_from_no_space:
  "list_all (\<lambda>c. \<not> isspace_chr c) cur \<Longrightarrow> t \<in> set (split_from cur s)
     \<Longrightarrow> list_all (\<lambda>c. \<not> isspace_chr c) t"
  by (induction cur s rule: split_from.induct) (auto split: if_splits)

lemma split_no_space: "t \<in> set (split s) \<Longrightarrow> list_all (\<lambda>c. \<not> isspace_chr c) t"
  using split_from_no_space[of "[]"] by (simp add: split_def)

lemma newline_space: "isspace_chr newline"
  by (simp add: isspace_chr_def newline_def in_range_def cp_def)

lemma clean_word_no_newline: "t \<in> set (split s) \<Longrightarrow> newline \<notin> set (clean_word t)"
  using split_no_space[of t s] newline_space by (auto simp: clean_word_def list_all_iff)

text \<open>
  C4. A cleaned token is \<open>clean_word t\<close> for a token \<open>t\<close> of \<open>split\<close>, as in the
  loop of \<open>extract_unique_words\<close>. On every cleaned token the filter accepts exactly
  when the seven conditions of the specification hold.
\<close>

theorem is_valid_word_iff_spec:
  "t \<in> set (split s) \<Longrightarrow>
   accepts english_words (clean_word t) = valid_spec english_words (clean_word t)"
  by (rule accepts_valid_spec) (rule clean_word_no_newline)

theorem is_valid_word_iff_spec_witness:
  "''quick,'' \<in> set (split ''The quick, brown fox'')
   \<and> accepts (set [''quick'', ''brown'']) (clean_word ''quick,'')
   \<and> valid_spec (set [''quick'', ''brown'']) (clean_word ''quick,'')"
proof -
  have tok: "''quick,'' \<in> set (split ''The quick, brown fox'')"
    by code_simp
  have acc: "accepts (set [''quick'', ''brown'']) (clean_word ''quick,'')"
    by code_simp
  from tok acc is_valid_word_iff_spec[OF tok, of "set [''quick'', ''brown'']"]
  show ?thesis by simp
qed

section \<open>The OCR extractor's page filter\<close>

text \<open>
  A Python \<open>range\<close> object and its membership test on integers. \<open>PAGES_RANGES\<close> is
  a module constant that the operator edits; here it is a parameter. The pages are the
  images of \<open>convert_from_path\<close>, and \<open>ocr\<close> stands for preprocessing an image
  and running Tesseract on it.
\<close>

record py_range =
  start :: int
  stop :: int
  step :: int

definition range2 :: "int \<Rightarrow> int \<Rightarrow> py_range" where
  "range2 a b = \<lparr>start = a, stop = b, step = 1\<rparr>"

definition in_py_range :: "int \<Rightarrow> py_range \<Rightarrow> bool" where
  "in_py_range x r =
     (if 0 < step r then start r \<le> x \<and> x < stop r \<and> (x - start r) mod step r = 0
      else if step r < 0 then stop r < x \<and> x \<le> start r \<and> (start r - x) mod (- step r) = 0
      else False)"

text \<open>The inner loop over \<open>PAGES_RANGES\<close>, which sets the flag \<open>skip\<close>.\<close>

fun skip_loop :: "int \<Rightarrow> py_range list \<Rightarrow> bool \<Rightarrow> bool" where
  "skip_loop cnt [] skip = skip"
| "skip_loop cnt (PAGE_RANGE # rest) skip =
     skip_loop cnt rest (if \<not> in_py_range cnt PAGE_RANGE then True else skip)"

definition page_skipped :: "py_range list \<Rightarrow> int \<Rightarrow> bool" where
  "page_skipped PAGES_RANGES cnt =
     (if PAGES_RANGES \<noteq> [] then skip_loop cnt PAGES_RANGES False else False)"

text \<open>
  The loop over the images. The state is the counter \<open>cnt\<close>, the text so far, and the page
  numbers printed by \<open>Extracting text from page ...\<close>, which are the pages processed.
\<close>

record 'img ocr_state =
  page_cnt :: int
  ocr_text :: string
  extracted :: "int list"

fun pages_loop ::
  "py_range list \<Rightarrow> ('img \<Rightarrow> string) \<Rightarrow> 'img list \<Rightarrow> 'img ocr_state \<Rightarrow> 'img ocr_state" where
  "pages_loop PAGES_RANGES ocr [] st = st"
| "pages_loop PAGES_RANGES ocr (img # images) st =
     (let st1 = st\<lparr>page_cnt := page_cnt st + 1\<rparr>
      in if page_skipped PAGES_RANGES (page_cnt st1) then pages_loop PAGES_RANGES ocr images st1
         else pages_loop PAGES_RANGES ocr images
                (st1\<lparr>extracted := extracted st1 @ [page_cnt st1], ocr_text := ocr_text st1 @ ocr img\<rparr>))"

definition extract_text_with_pytesseract ::
  "py_range list \<Rightarrow> ('img \<Rightarrow> string) \<Rightarrow> 'img list \<Rightarrow> 'img ocr_state" where
  "extract_text_with_pytesseract PAGES_RANGES ocr images =
     pages_loop PAGES_RANGES ocr images \<lparr>page_cnt = 0, ocr_text = [], extracted = []\<rparr>"

lemma skip_loop_iff:
  "skip_loop n rs skip \<longleftrightarrow> skip \<or> (\<exists>r \<in> set rs. \<not> in_py_range n r)"
  by (induction rs arbitrary: skip) auto

lemma page_skipped_iff:
  "page_skipped rs n \<longleftrightarrow> (\<exists>r \<in> set rs. \<not> in_py_range n r)"
  by (auto simp: page_skipped_def skip_loop_iff)

lemma pages_loop_extracted:
  "set (extracted (pages_loop rs ocr images st)) =
     set (extracted st) \<union>
     {n. page_cnt st < n \<and> n \<le> page_cnt st + int (length images) \<and> \<not> page_skipped rs n}"
proof (induction images arbitrary: st)
  case Nil
  show ?case by auto
next
  case (Cons img images)
  have next_page: "page_cnt st < n \<longleftrightarrow> n = page_cnt st + 1 \<or> page_cnt st + 1 < n" for n
    by auto
  show ?case
    by (simp add: Cons.IH Let_def) (auto simp: next_page)
qed

text \<open>
  What the loop does: a page is processed exactly when its number lies in every range
  of the list, so a second range can only remove pages.
\<close>

lemma extracted_iff_in_all_ranges:
  "n \<in> set (extracted (extract_text_with_pytesseract rs ocr images)) \<longleftrightarrow>
     1 \<le> n \<and> n \<le> int (length images) \<and> (\<forall>r \<in> set rs. in_py_range n r)"
  by (auto simp: extract_text_with_pytesseract_def pages_loop_extracted page_skipped_iff)

text \<open>
  C2 asks for the pages that lie in at least one range. With the two ranges
  \<open>range(1, 3)\<close> and \<open>range(5, 7)\<close> and a document of six pages, page 1 lies in
  the first range, yet no page is processed and the text is empty.
\<close>

theorem two_ranges_skip_every_page:
  "in_py_range 1 (range2 1 3)
   \<and> extracted (extract_text_with_pytesseract [range2 1 3, range2 5 7] (\<lambda>img. img)
        [''p1'', ''p2'', ''p3'', ''p4'', ''p5'', ''p6'']) = []
   \<and> ocr_text (extract_text_with_pytesseract [range2 1 3, range2 5 7] (\<lambda>img. img)
        [''p1'', ''p2'', ''p3'', ''p4'', ''p5'', ''p6'']) = []"
  by (simp add: extract_text_with_pytesseract_def page_skipped_def in_py_range_def range2_def)

section \<open>Dictionaries\<close>

text \<open>
  A Python \<open>dict\<close> keeps its keys in insertion order, and the classifier later walks
  the mapping in that order, so a dictionary is an association list with distinct keys.
  Storing under a key that is present replaces the value in place; a new key goes to
  the end.
\<close>

type_synonym ('k, 'v) dict = "('k \<times> 'v) list"

definition keys :: "('k, 'v) dict \<Rightarrow> 'k list" where
  "keys d = map fst d"

definition contains :: "('k, 'v) dict \<Rightarrow> 'k \<Rightarrow> bool" where
  "contains d k = (k \<in> set (keys d))"

fun setitem :: "('k, 'v) dict \<Rightarrow> 'k \<Rightarrow> 'v \<Rightarrow> ('k, 'v) dict" where
  "setitem [] k v = [(k, v)]"
| "setitem ((k', v') # d) k v = (if k' = k then (k, v) # d else (k', v') # setitem d k v)"

definition getitem_dict :: "('k, 'v) dict \<Rightarrow> 'k \<Rightarrow> 'v option" where
  "getitem_dict d k = map_of d k"

lemma map_of_setitem: "map_of (setitem d k v) = (map_of d)(k \<mapsto> v)"
  by (induction d) (auto simp: fun_eq_iff)

lemma getitem_setitem: "getitem_dict (setitem d k v) k' = (if k' = k then Some v else getitem_dict d k')"
  by (simp add: getitem_dict_def map_of_setitem)

lemma keys_Cons: "keys ((k, v) # d) = k # keys d"
  by (simp add: keys_def)

lemma keys_setitem:
  "keys (setitem d k v) = (if k \<in> set (keys d) then keys d else keys d @ [k])"
  by (induction d) (force simp: keys_def)+

lemma setitem_keys_set: "set (keys (setitem d k v)) = insert k (set (keys d))"
  by (auto simp: keys_setitem)

lemma setitem_new: "k \<notin> set (keys d) \<Longrightarrow> setitem d k v = d @ [(k, v)]"
  by (induction d) (auto simp: keys_def)

lemma setitem_middle:
  "w \<notin> set (keys pre) \<Longrightarrow> setitem (pre @ (w, d) # rest) w d' = pre @ (w, d') # rest"
  by (induction pre) (auto simp: keys_def)

section \<open>The word extractor\<close>

text \<open>
  \<open>extract_unique_words\<close>. The value stored for a word is the dictionary
  \<open>{"sentence": cleaned_sentence}\<close>, modelled by the sentence itself. The membership
  test is on \<open>word_cleaned\<close>, the store is under \<open>word_cleaned.lower()\<close>.
\<close>

fun words_loop ::
  "string set \<Rightarrow> string \<Rightarrow> string list \<Rightarrow> (string, string) dict
     \<Rightarrow> py_error + (string, string) dict" where
  "words_loop english_words cleaned_sentence [] unique_words = Inr unique_words"
| "words_loop english_words cleaned_sentence (word # rest) unique_words =
     (let word_cleaned = clean_word word
      in case is_valid_word english_words word_cleaned of
           Inl e \<Rightarrow> Inl e
         | Inr v \<Rightarrow>
             if truthy v \<and> \<not> contains unique_words word_cleaned
             then words_loop english_words cleaned_sentence rest
                    (setitem unique_words (lower word_cleaned) cleaned_sentence)
             else words_loop english_words cleaned_sentence rest unique_words)"

fun sentences_loop ::
  "string set \<Rightarrow> string list \<Rightarrow> (string, string) dict \<Rightarrow> py_error + (string, string) dict" where
  "sentences_loop english_words [] unique_words = Inr unique_words"
| "sentences_loop english_words (sentence # rest) unique_words =
     (let cleaned_sentence = clean_sentence sentence
      in case words_loop english_words cleaned_sentence (split cleaned_sentence) unique_words of
           Inl e \<Rightarrow> Inl e
         | Inr unique_words' \<Rightarrow> sentences_loop english_words rest unique_words')"

definition extract_unique_words :: "string set \<Rightarrow> string \<Rightarrow> py_error + (string, string) dict" where
  "extract_unique_words english_words txt =
     sentences_loop english_words (re_split_sentences txt) []"

text \<open>
  The candidates of a text, in the order of the loop: for every token that the filter
  accepts, its lower-case form with the cleaned sentence it stands in. Looking a word
  up in this list (\<open>map_of\<close>) gives the sentence of its first occurrence.
\<close>

definition candidates :: "string set \<Rightarrow> string \<Rightarrow> string list \<Rightarrow> (string \<times> string) list" where
  "candidates ew cs ws =
     map (\<lambda>w. (lower (clean_word w), cs)) (filter (\<lambda>w. accepts ew (clean_word w)) ws)"

definition all_candidates :: "string set \<Rightarrow> string \<Rightarrow> (string \<times> string) list" where
  "all_candidates ew txt =
     concat (map (\<lambda>s. candidates ew (clean_sentence s) (split (clean_sentence s)))
               (re_split_sentences txt))"

text \<open>
  The extractor never raises, and every key of its result is in lower case.
\<close>

lemma lower_chr_idem: "lower_chr (lower_chr c) = lower_chr c"
  by (auto simp: lower_chr_def isupper_chr_def in_range_def cp_def)

lemma lower_idem: "lower (lower w) = lower w"
  by (simp add: lower_def lower_chr_idem)

lemma words_loop_lower:
  "\<forall>k \<in> set (keys uw). lower k = k \<Longrightarrow>
   \<exists>uw'. words_loop ew cs ws uw = Inr uw' \<and> (\<forall>k \<in> set (keys uw'). lower k = k)"
proof (induction ws arbitrary: uw)
  case Nil
  then show ?case by simp
next
  case (Cons word ws)
  obtain v where v: "is_valid_word ew (clean_word word) = Inr v"
    using is_valid_word_Inr by blast
  have "\<forall>k \<in> set (keys (setitem uw (lower (clean_word word)) cs)). lower k = k"
    using Cons.prems by (auto simp: setitem_keys_set lower_idem)
  from Cons.IH[OF this] Cons.IH[OF Cons.prems] v show ?case by (simp add: Let_def)
qed

lemma sentences_loop_lower:
  "\<forall>k \<in> set (keys uw). lower k = k \<Longrightarrow>
   \<exists>uw'. sentences_loop ew ss uw = Inr uw' \<and> (\<forall>k \<in> set (keys uw'). lower k = k)"
proof (induction ss arbitrary: uw)
  case Nil
  then show ?case by simp
next
  case (Cons s ss)
  from words_loop_lower[OF Cons.prems, of ew "clean_sentence s" "split (clean_sentence s)"]
  obtain uw1 where u: "words_loop ew (clean_sentence s) (split (clean_sentence s)) uw = Inr uw1"
    "\<forall>k \<in> set (keys uw1). lower k = k" by blast
  from Cons.IH[OF u(2)] u(1) show ?case by (simp add: Let_def)
qed

lemma extract_unique_words_keys_lower:
  "\<exists>m. extract_unique_words ew txt = Inr m \<and> (\<forall>k \<in> set (keys m). lower k = k)"
  unfolding extract_unique_words_def by (rule sentences_loop_lower) (simp add: keys_def)

text \<open>
  When the filter accepts lower-case words only (a dictionary without capitals inside
  its entries), the first occurrence wins, as the specification says.
\<close>

lemma map_of_skip:
  "k \<in> set (keys uw) \<Longrightarrow> map_of (uw @ (k, v) # rest) = map_of (uw @ rest)"
proof -
  assume "k \<in> set (keys uw)"
  then have "k \<in> fst ` set uw" by (simp add: keys_def)
  then have "map_of uw k \<noteq> None" by (simp add: map_of_eq_None_iff)
  then obtain y where y: "map_of uw k = Some y" by auto
  show ?thesis
  proof
    fix x
    show "map_of (uw @ (k, v) # rest) x = map_of (uw @ rest) x"
    proof (cases "x = k")
      case True
      show ?thesis unfolding map_of_append map_add_def True y by simp
    next
      case False
      then have "map_of ((k, v) # rest) x = map_of rest x" by simp
      then show ?thesis unfolding map_of_append map_add_def by (simp only:)
    qed
  qed
qed

lemma words_loop_first:
  assumes low: "\<forall>w. accepts ew w \<longrightarrow> lower w = w"
  shows "\<exists>uw'. words_loop ew cs ws uw = Inr uw'
           \<and> map_of uw' = map_of (uw @ candidates ew cs ws)"
proof (induction ws arbitrary: uw)
  case Nil
  show ?case by (simp add: candidates_def)
next
  case (Cons word ws)
  let ?w = "clean_word word"
  obtain v where v: "is_valid_word ew ?w = Inr v" using is_valid_word_Inr by blast
  then have acc: "accepts ew ?w = truthy v" by (simp add: accepts_def)
  show ?case
  proof (cases "truthy v \<and> \<not> contains uw ?w")
    case True
    then have l: "lower ?w = ?w" using low acc by simp
    have c: "candidates ew cs (word # ws) = (?w, cs) # candidates ew cs ws"
      using True acc l by (simp add: candidates_def)
    have s: "setitem uw (lower ?w) cs = uw @ [(?w, cs)]"
      unfolding l using True by (intro setitem_new) (simp add: contains_def)
    have step: "words_loop ew cs (word # ws) uw = words_loop ew cs ws (uw @ [(?w, cs)])"
      using True v by (simp add: Let_def s)
    from Cons.IH[of "uw @ [(?w, cs)]"] obtain uw' where
      r: "words_loop ew cs ws (uw @ [(?w, cs)]) = Inr uw'"
      and m: "map_of uw' = map_of ((uw @ [(?w, cs)]) @ candidates ew cs ws)"
      by (elim exE conjE)
    have "(uw @ [(?w, cs)]) @ candidates ew cs ws = uw @ candidates ew cs (word # ws)"
      unfolding c by simp
    with m have m': "map_of uw' = map_of (uw @ candidates ew cs (word # ws))" by (simp only:)
    show ?thesis unfolding step by (rule exI[of _ uw'], rule conjI, rule r, rule m')
  next
    case False
    have step: "words_loop ew cs (word # ws) uw = words_loop ew cs ws uw"
      using False v by (auto simp: Let_def)
    from Cons.IH[of uw] obtain uw' where
      r: "words_loop ew cs ws uw = Inr uw'"
      and m: "map_of uw' = map_of (uw @ candidates ew cs ws)"
      by (elim exE conjE)
    have "map_of (uw @ candidates ew cs (word # ws)) = map_of (uw @ candidates ew cs ws)"
    proof (cases "truthy v")
      case False
      then have "candidates ew cs (word # ws) = candidates ew cs ws"
        using acc by (simp add: candidates_def)
      then show ?thesis by (simp only:)
    next
      case True
      then have l: "lower ?w = ?w" using low acc by simp
      have c: "candidates ew cs (word # ws) = (?w, cs) # candidates ew cs ws"
        using True acc l by (simp add: candidates_def)
      have "?w \<in> set (keys uw)" using True False by (simp add: contains_def)
      then show ?thesis unfolding c by (rule map_of_skip)
    qed
    with m have m': "map_of uw' = map_of (uw @ candidates ew cs (word # ws))" by (simp only:)
    show ?thesis unfolding step by (rule exI[of _ uw'], rule conjI, rule r, rule m')
  qed
qed

lemma sentences_loop_first:
  assumes low: "\<forall>w. accepts ew w \<longrightarrow> lower w = w"
  shows "\<exists>uw'. sentences_loop ew ss uw = Inr uw'
           \<and> map_of uw' = map_of (uw @ concat (map (\<lambda>s. candidates ew (clean_sentence s)
                 (split (clean_sentence s))) ss))"
proof (induction ss arbitrary: uw)
  case Nil
  show ?case by simp
next
  case (Cons s ss)
  let ?c = "candidates ew (clean_sentence s) (split (clean_sentence s))"
  let ?rest = "concat (map (\<lambda>s. candidates ew (clean_sentence s) (split (clean_sentence s))) ss)"
  from words_loop_first[OF low, of "clean_sentence s" "split (clean_sentence s)" uw]
  obtain uw1 where u1: "words_loop ew (clean_sentence s) (split (clean_sentence s)) uw = Inr uw1"
    "map_of uw1 = map_of (uw @ ?c)" by (elim exE conjE)
  from Cons.IH[of uw1] obtain uw2 where u2: "sentences_loop ew ss uw1 = Inr uw2"
    "map_of uw2 = map_of (uw1 @ ?rest)" by (elim exE conjE)
  have run: "sentences_loop ew (s # ss) uw = Inr uw2"
    using u1(1) u2(1) by (simp add: Let_def)
  have "map_of uw2 = map_of ?rest ++ map_of uw1"
    unfolding u2(2) by (rule map_of_append)
  also have "\<dots> = map_of ?rest ++ map_of (uw @ ?c)" by (simp only: u1(2))
  also have "\<dots> = map_of ((uw @ ?c) @ ?rest)" by (rule map_of_append[symmetric])
  finally have m: "map_of uw2 = map_of (uw @ concat (map (\<lambda>s. candidates ew (clean_sentence s)
                 (split (clean_sentence s))) (s # ss)))"
    by (simp only: append_assoc concat.simps list.map)
  show ?case by (rule exI[of _ uw2], rule conjI, rule run, rule m)
qed

lemma first_occurrence_wins_lowercase:
  "\<forall>w. accepts ew w \<longrightarrow> lower w = w \<Longrightarrow>
   \<exists>m. extract_unique_words ew txt = Inr m \<and> map_of m = map_of (all_candidates ew txt)"
  unfolding extract_unique_words_def all_candidates_def
  by (rule sentences_loop_first[of ew "re_split_sentences txt" "[]", unfolded append_Nil])

text \<open>
  With a lower-case word the guard works: the second sentence does not replace the
  first.
\<close>

lemma first_sentence_kept_lowercase:
  "extract_unique_words (set [''apple'', ''came'', ''left''])
     ''An apple came. The apple left!'' =
   Inr [(''apple'', ''An apple came''), (''came'', ''An apple came''),
        (''left'', ''The apple left'')]"
  by code_simp

text \<open>
  C3 says that the first sentence is kept also when the occurrences differ in letter
  case only. A dictionary entry with a capital inside (not title-cased, so the filter
  accepts it) is stored under its lower-case form and looked up under the original
  one: the guard never finds it, and each later occurrence replaces the sentence.
\<close>

theorem later_sentence_replaces_first:
  "extract_unique_words (set [''McIntosh'', ''apple'']) ''McIntosh came. McIntosh left.'' =
   Inr [(''mcintosh'', ''McIntosh left'')]"
  by code_simp

section \<open>Files\<close>

text \<open>
  The program reads and writes files of its working directory. The file system of the
  model is that directory: its absolute path (the list of its components), the regular
  files in it (names and contents), and the journal of what the program has done to the
  world around it so far. The directory holds regular files only, no subdirectory and
  no link; its ancestors hold nothing but the path to it and cannot be written.

  The journal records every file written (one event for each \<open>open(..., "w")\<close>, with
  the name of the file and the text it holds when it is closed) and, for the
  translator, the calls of the translation service and the lines printed.
\<close>

datatype io_event =
  Wrote string string
| Called string
| Printed_translation string string
| Printed_error string string

record fs =
  cwd :: "string list"
  entries :: "(string, string) dict"
  journal :: "io_event list"

text \<open>
  What a path names, as POSIX resolves it: the components are walked from the root
  (absolute path) or from the working directory; empty components and \<open>.\<close> stay
  where they are, \<open>..\<close> goes to the parent, a name goes into a directory when there
  is one of that name, and the only directories are the working directory and its
  ancestors. A name in the working directory that nothing follows is a file of the
  model, present or not; everything else that is not a directory names nothing that
  exists or can be created. The empty path names nothing, and neither does a path with
  a NUL character, a path of \<open>PATH_MAX\<close> bytes or more, or a path with a name of
  more than \<open>NAME_MAX\<close> bytes (the limits of Linux; paths are encoded in UTF-8,
  where the characters from U+0080 on take two bytes).
\<close>

datatype target = File string | Directory | Nothing

definition NAME_MAX :: int where
  "NAME_MAX = 255"

definition PATH_MAX :: int where
  "PATH_MAX = 4096"

definition utf8_length :: "string \<Rightarrow> int" where
  "utf8_length s = sum_list (map (\<lambda>c. if cp c < 128 then 1 else 2) s)"

fun components_from :: "string \<Rightarrow> string \<Rightarrow> string list" where
  "components_from cur [] = [cur]"
| "components_from cur (c # s) =
     (if c = CHR ''/'' then cur # components_from [] s else components_from (cur @ [c]) s)"

definition components :: "string \<Rightarrow> string list" where
  "components path = components_from [] path"

fun walk :: "string list \<Rightarrow> string list \<Rightarrow> string list \<Rightarrow> target" where
  "walk home dir [] = Directory"
| "walk home dir (c # cs) =
     (if c = [] \<or> c = ''.'' then walk home dir cs
      else if c = ''..'' then walk home (butlast dir) cs
      else if NAME_MAX < utf8_length c then Nothing
      else if take (Suc (length dir)) home = dir @ [c] then walk home (dir @ [c]) cs
      else if cs = [] \<and> dir = home then File c
      else Nothing)"

definition resolve :: "fs \<Rightarrow> string \<Rightarrow> target" where
  "resolve files path =
     (if path = [] \<or> CHR 0x00 \<in> set path \<or> PATH_MAX \<le> utf8_length path then Nothing
      else walk (cwd files) (if hd path = CHR ''/'' then [] else cwd files) (components path))"

text \<open>
  \<open>os.path.exists\<close>, \<open>open(path, "r")\<close> with \<open>read\<close>, and \<open>open(path, "w")\<close>
  with the writes up to the closing of the file. \<open>open\<close> raises \<open>ValueError\<close>
  on a path with a NUL character; every other failure of \<open>open\<close> is an
  \<open>OSError\<close> (\<open>FileNotFoundError\<close>, \<open>IsADirectoryError\<close>, \<open>NotADirectoryError\<close>,
  \<open>PermissionError\<close>, or the error of a name that is too long), and a failed
  \<open>open\<close> changes nothing. A function that writes returns the file system it leaves
  and the exception it raises, if any.
\<close>

definition path_exists :: "fs \<Rightarrow> string \<Rightarrow> bool" where
  "path_exists files path =
     (case resolve files path of
        File name \<Rightarrow> contains (entries files) name
      | Directory \<Rightarrow> True
      | Nothing \<Rightarrow> False)"

definition open_read :: "fs \<Rightarrow> string \<Rightarrow> py_error + string" where
  "open_read files path =
     (if CHR 0x00 \<in> set path then Inl ValueError
      else case resolve files path of
        File name \<Rightarrow>
          (case getitem_dict (entries files) name of
             Some content \<Rightarrow> Inr content
           | None \<Rightarrow> Inl OSError)
      | Directory \<Rightarrow> Inl OSError
      | Nothing \<Rightarrow> Inl OSError)"

definition open_write :: "fs \<Rightarrow> string \<Rightarrow> string \<Rightarrow> fs \<times> py_error option" where
  "open_write files path content =
     (if CHR 0x00 \<in> set path then (files, Some ValueError)
      else case resolve files path of
        File name \<Rightarrow>
          (files\<lparr>entries := setitem (entries files) name content,
                 journal := journal files @ [Wrote name content]\<rparr>, None)
      | Directory \<Rightarrow> (files, Some OSError)
      | Nothing \<Rightarrow> (files, Some OSError))"

text \<open>
  A file opened with \<open>newline=""\<close> is read as it is and cut into lines after every
  \<open>\n\<close>, \<open>\r\n\<close> or lone \<open>\r\<close>, the line keeping its ending. A file opened in
  the default text mode has \<open>\r\n\<close> and \<open>\r\<close> turned into \<open>\n\<close> first. Writing
  is as on a POSIX system, where \<open>\n\<close> is written as it is.
\<close>

definition ends_line :: "char \<Rightarrow> string \<Rightarrow> bool" where
  "ends_line c s =
     (c = newline \<or> (c = carriage_return \<and> (case s of [] \<Rightarrow> True | d # _ \<Rightarrow> d \<noteq> newline)))"

fun lines_from :: "string \<Rightarrow> string \<Rightarrow> string list" where
  "lines_from cur [] = (if cur = [] then [] else [cur])"
| "lines_from cur (c # s) =
     (if ends_line c s then (cur @ [c]) # lines_from [] s else lines_from (cur @ [c]) s)"

definition file_lines :: "string \<Rightarrow> string list" where
  "file_lines content = lines_from [] content"

fun universal_from :: "bool \<Rightarrow> string \<Rightarrow> string" where
  "universal_from after_cr [] = []"
| "universal_from after_cr (c # s) =
     (if c = carriage_return then newline # universal_from True s
      else if c = newline \<and> after_cr then universal_from False s
      else c # universal_from False s)"

definition universal_newlines :: "string \<Rightarrow> string" where
  "universal_newlines content = universal_from False content"

definition text_mode_lines :: "string \<Rightarrow> string list" where
  "text_mode_lines content = file_lines (universal_newlines content)"

text \<open>
  \<open>os.path.basename\<close> and \<open>os.path.splitext\<close> of \<open>posixpath\<close>, and the
  \<open>name\<close> of a \<open>pathlib.Path\<close> (its last component, \<open>.\<close> and empty components
  left out).
\<close>

definition rfind :: "char \<Rightarrow> string \<Rightarrow> int" where
  "rfind c p =
     (if c \<in> set p then int (length p) - 1 - int (length (takeWhile (\<lambda>d. d \<noteq> c) (rev p)))
      else - 1)"

definition basename :: "string \<Rightarrow> string" where
  "basename p = drop (nat (rfind (CHR ''/'') p + 1)) p"

definition splitext :: "string \<Rightarrow> string \<times> string" where
  "splitext p =
     (let sepIndex = rfind (CHR ''/'') p; dotIndex = rfind (CHR ''.'') p
      in if dotIndex > sepIndex
            \<and> (\<exists>filenameIndex \<in> {nat (sepIndex + 1)..<nat dotIndex}. p ! filenameIndex \<noteq> CHR ''.'')
         then (take (nat dotIndex) p, drop (nat dotIndex) p)
         else (p, []))"

definition path_name :: "string \<Rightarrow> string" where
  "path_name p =
     (case filter (\<lambda>c. c \<noteq> [] \<and> c \<noteq> ''.'') (components p) of
        [] \<Rightarrow> []
      | c # cs \<Rightarrow> last (c # cs))"

definition endswith :: "string \<Rightarrow> string \<Rightarrow> bool" where
  "endswith s suffix = (length suffix \<le> length s \<and> drop (length s - length suffix) s = suffix)"

definition PDF_FILE :: string where
  "PDF_FILE = ''Geronimo Stilton Spacemice - Book 3 - Ice Planet Adventure.pdf''"

definition KNOWN_WORDS_FILE :: string where
  "KNOWN_WORDS_FILE = ''.KNOWN_WORDS.txt''"

definition UNKNOWN_WORDS_FILE :: string where
  "UNKNOWN_WORDS_FILE = fst (splitext (basename PDF_FILE)) @ ''.csv''"

section \<open>The known-words file\<close>

definition word_lines :: "string list \<Rightarrow> string" where
  \<comment> \<open>\<open>for word in ...: file.write(f"{word}\n")\<close>\<close>
  "word_lines ws = concat (map (\<lambda>word. word @ [newline]) ws)"

definition load_known_words :: "fs \<Rightarrow> string \<Rightarrow> py_error + string set" where
  "load_known_words files file_path =
     (if path_exists files file_path then
        (case open_read files file_path of
           Inl e \<Rightarrow> Inl e
         | Inr content \<Rightarrow> Inr (set (map strip (text_mode_lines content))))
      else Inr {})"

definition save_known_words :: "fs \<Rightarrow> string \<Rightarrow> string set \<Rightarrow> fs \<times> py_error option" where
  "save_known_words files file_path known_words =
     open_write files file_path (word_lines (sorted_list_of_set known_words))"

text \<open>
  \<open>Path(".").glob("*.words")\<close> lists the files of the working directory whose name
  ends in \<open>.words\<close>, each with the text that reading it gives (\<open>file_name\<close>
  says what the name of a file can be).
  \<open>load_otherbook_words\<close> reads every one of them whose name differs from the name
  of \<open>file_path\<close>.
\<close>

definition file_name :: "string \<Rightarrow> bool" where
  "file_name n =
     (n \<noteq> [] \<and> n \<noteq> ''.'' \<and> n \<noteq> ''..'' \<and> CHR ''/'' \<notin> set n \<and> CHR 0x00 \<notin> set n
      \<and> utf8_length n \<le> NAME_MAX)"

definition glob_words :: "fs \<Rightarrow> (string \<times> string) list" where
  "glob_words files =
     filter (\<lambda>(name, content). file_name name \<and> endswith name ''.words''
                \<and> getitem_dict (entries files) name = Some content)
       (entries files)"

fun otherbook_loop :: "string \<Rightarrow> (string \<times> string) list \<Rightarrow> string set \<Rightarrow> string set" where
  "otherbook_loop file_path [] otherbook_words = otherbook_words"
| "otherbook_loop file_path ((other_file, content) # rest) otherbook_words =
     (if other_file \<noteq> path_name file_path
      then otherbook_loop file_path rest
             (otherbook_words \<union> set (map strip (text_mode_lines content)))
      else otherbook_loop file_path rest otherbook_words)"

definition load_otherbook_words :: "fs \<Rightarrow> string \<Rightarrow> string set" where
  "load_otherbook_words files file_path = otherbook_loop file_path (glob_words files) {}"

section \<open>The CSV module\<close>

text \<open>
  The writer and the reader of Python's \<open>csv\<close> module for the default dialect
  (delimiter \<open>,\<close>, quote character \<open>"\<close>, doubled quotes, line terminator
  \<open>\r\n\<close>, no escape character, not strict). The writer is the one of
  \<open>QUOTE_ALL\<close>. The reader is the state machine of CPython's \<open>Reader_iternext\<close> and
  \<open>parse_process_char\<close>, which receives the characters of each line and then an
  end-of-line mark (\<open>None\<close>). It raises \<open>csv.Error\<close> when a character is to be
  added to a field that has reached the field size limit (131072 characters unless
  \<open>csv.field_size_limit\<close> is called, which the program never does), and when a
  character follows a line ending inside a line.
\<close>

definition quotechar :: char where
  "quotechar = CHR 0x22"

definition delimiter :: char where
  "delimiter = CHR 0x2C"

definition field_limit :: nat where
  "field_limit = 131072"

definition quote_field :: "string \<Rightarrow> string" where
  "quote_field f =
     quotechar # concat (map (\<lambda>c. if c = quotechar then [quotechar, quotechar] else [c]) f)
       @ [quotechar]"

fun join_fields :: "string list \<Rightarrow> string" where
  "join_fields [] = []"
| "join_fields [f] = f"
| "join_fields (f # g # fs) = f @ delimiter # join_fields (g # fs)"

definition writerow :: "string list \<Rightarrow> string" where
  "writerow row = join_fields (map quote_field row) @ [carriage_return, newline]"

datatype parser_state =
  START_RECORD | START_FIELD | IN_FIELD | IN_QUOTED_FIELD | QUOTE_IN_QUOTED_FIELD | EAT_CRNL

record reader =
  pstate :: parser_state
  pfield :: string
  pfields :: "string list"

definition parse_reset :: reader where
  "parse_reset = \<lparr>pstate = START_RECORD, pfield = [], pfields = []\<rparr>"

definition parse_save_field :: "reader \<Rightarrow> reader" where
  "parse_save_field r = r\<lparr>pfields := pfields r @ [pfield r], pfield := []\<rparr>"

text \<open>
  \<open>parse_add_char\<close> refuses the character when the field has \<open>field_limit\<close>
  characters already. Where the caller sets a new state after it, it does so when the
  character has been taken (\<open>then_state\<close>).
\<close>

definition parse_add_char :: "reader \<Rightarrow> char \<Rightarrow> py_error + reader" where
  "parse_add_char r c =
     (if field_limit \<le> length (pfield r) then Inl CsvError
      else Inr (r\<lparr>pfield := pfield r @ [c]\<rparr>))"

definition then_state :: "py_error + reader \<Rightarrow> parser_state \<Rightarrow> py_error + reader" where
  "then_state result next_state =
     (case result of Inl e \<Rightarrow> Inl e | Inr r \<Rightarrow> Inr (r\<lparr>pstate := next_state\<rparr>))"

definition is_nl :: "char \<Rightarrow> bool" where
  "is_nl c = (c = newline \<or> c = carriage_return)"

definition start_field :: "reader \<Rightarrow> char option \<Rightarrow> py_error + reader" where
  "start_field r c =
     (case c of
        None \<Rightarrow> Inr ((parse_save_field r)\<lparr>pstate := START_RECORD\<rparr>)
      | Some ch \<Rightarrow>
          if is_nl ch then Inr ((parse_save_field r)\<lparr>pstate := EAT_CRNL\<rparr>)
          else if ch = quotechar then Inr (r\<lparr>pstate := IN_QUOTED_FIELD\<rparr>)
          else if ch = delimiter then Inr (parse_save_field r)
          else then_state (parse_add_char r ch) IN_FIELD)"

definition parse_process_char :: "reader \<Rightarrow> char option \<Rightarrow> py_error + reader" where
  "parse_process_char r c =
     (case pstate r of
        START_RECORD \<Rightarrow>
          (case c of
             None \<Rightarrow> Inr r
           | Some ch \<Rightarrow>
               if is_nl ch then Inr (r\<lparr>pstate := EAT_CRNL\<rparr>)
               else start_field (r\<lparr>pstate := START_FIELD\<rparr>) c)
      | START_FIELD \<Rightarrow> start_field r c
      | IN_FIELD \<Rightarrow>
          (case c of
             None \<Rightarrow> Inr ((parse_save_field r)\<lparr>pstate := START_RECORD\<rparr>)
           | Some ch \<Rightarrow>
               if is_nl ch then Inr ((parse_save_field r)\<lparr>pstate := EAT_CRNL\<rparr>)
               else if ch = delimiter then Inr ((parse_save_field r)\<lparr>pstate := START_FIELD\<rparr>)
               else parse_add_char r ch)
      | IN_QUOTED_FIELD \<Rightarrow>
          (case c of
             None \<Rightarrow> Inr r
           | Some ch \<Rightarrow>
               if ch = quotechar then Inr (r\<lparr>pstate := QUOTE_IN_QUOTED_FIELD\<rparr>)
               else parse_add_char r ch)
      | QUOTE_IN_QUOTED_FIELD \<Rightarrow>
          (case c of
             None \<Rightarrow> Inr ((parse_save_field r)\<lparr>pstate := START_RECORD\<rparr>)
           | Some ch \<Rightarrow>
               if ch = quotechar then then_state (parse_add_char r ch) IN_QUOTED_FIELD
               else if ch = delimiter then Inr ((parse_save_field r)\<lparr>pstate := START_FIELD\<rparr>)
               else if is_nl ch then Inr ((parse_save_field r)\<lparr>pstate := EAT_CRNL\<rparr>)
               else then_state (parse_add_char r ch) IN_FIELD)
      | EAT_CRNL \<Rightarrow>
          (case c of
             None \<Rightarrow> Inr (r\<lparr>pstate := START_RECORD\<rparr>)
           | Some ch \<Rightarrow> if is_nl ch then Inr r else Inl CsvError))"

fun process_line :: "reader \<Rightarrow> string \<Rightarrow> py_error + reader" where
  "process_line r [] = Inr r"
| "process_line r (c # cs) =
     (case parse_process_char r (Some c) of
        Inl e \<Rightarrow> Inl e
      | Inr r' \<Rightarrow> process_line r' cs)"

text \<open>
  The rows that iterating over the reader yields. A record is complete when the state
  after the end-of-line mark is \<open>START_RECORD\<close>; otherwise the next line continues
  it. When the lines run out inside a record, the record read so far is the last row.
\<close>

definition end_of_input :: "reader \<Rightarrow> string list list" where
  "end_of_input r =
     (if pfield r \<noteq> [] \<or> pstate r = IN_QUOTED_FIELD then [pfields (parse_save_field r)]
      else [])"

fun reader_loop :: "reader \<Rightarrow> string list \<Rightarrow> py_error + string list list" where
  "reader_loop r [] = Inr (end_of_input r)"
| "reader_loop r (line # rest) =
     (case process_line r line of
        Inl e \<Rightarrow> Inl e
      | Inr r1 \<Rightarrow>
          (case parse_process_char r1 None of
             Inl e \<Rightarrow> Inl e
           | Inr r2 \<Rightarrow>
               if pstate r2 = START_RECORD then
                 (case reader_loop parse_reset rest of
                    Inl e \<Rightarrow> Inl e
                  | Inr rows \<Rightarrow> Inr (pfields r2 # rows))
               else reader_loop r2 rest))"

definition csv_reader :: "string list \<Rightarrow> py_error + string list list" where
  "csv_reader file = reader_loop parse_reset file"

section \<open>The unknown-words store\<close>

record details =
  translation :: string
  sentence :: string

fun rows_loop :: "string list list \<Rightarrow> (string, details) dict \<Rightarrow> (string, details) dict" where
  "rows_loop [] unknown_words = unknown_words"
| "rows_loop (row # rest) unknown_words =
     (if 3 \<le> length row
      then rows_loop rest
             (setitem unknown_words (row ! 0) \<lparr>translation = row ! 1, sentence = row ! 2\<rparr>)
      else rows_loop rest unknown_words)"

definition load_unknown_words :: "fs \<Rightarrow> string \<Rightarrow> py_error + (string, details) dict" where
  "load_unknown_words files file_path =
     (if path_exists files file_path then
        (case open_read files file_path of
           Inl e \<Rightarrow> Inl e
         | Inr content \<Rightarrow>
             (case csv_reader (file_lines content) of
                Inl e \<Rightarrow> Inl e
              | Inr rows \<Rightarrow> Inr (rows_loop rows [])))
      else Inr [])"

definition csv_text :: "(string, details) dict \<Rightarrow> string" where
  "csv_text unknown_words =
     concat (map (\<lambda>(word, d). writerow [word, translation d, sentence d]) unknown_words)"

definition sidecar :: "string \<Rightarrow> string" where
  "sidecar file_path = fst (splitext (basename file_path)) @ ''.words''"

definition save_unknown_words ::
  "fs \<Rightarrow> string \<Rightarrow> (string, details) dict \<Rightarrow> fs \<times> py_error option" where
  "save_unknown_words files file_path unknown_words =
     (case open_write files file_path (csv_text unknown_words) of
        (files1, Some e) \<Rightarrow> (files1, Some e)
      | (files1, None) \<Rightarrow>
          (let sorted_unknown_words = sort (keys unknown_words)
           in open_write files1 (sidecar file_path) (word_lines sorted_unknown_words)))"

section \<open>Evaluating the reader\<close>

text \<open>
  The test of the field size limit compares a length with a large number; for
  evaluation the length is counted as an integer.
\<close>

fun length_int :: "'a list \<Rightarrow> int" where
  "length_int [] = 0"
| "length_int (x # xs) = 1 + length_int xs"

lemma length_int: "length_int xs = int (length xs)"
  by (induction xs) auto

lemma parse_add_char_code [code]:
  "parse_add_char r c =
     (if 131072 \<le> length_int (pfield r) then Inl CsvError
      else Inr (r\<lparr>pfield := pfield r @ [c]\<rparr>))"
  by (simp add: parse_add_char_def then_state_def field_limit_def length_int)

section \<open>Paths of the working directory\<close>

lemma resolve_update [simp]:
  "resolve (files\<lparr>entries := e, journal := j\<rparr>) path = resolve files path"
  by (simp add: resolve_def)

lemma components_from_name:
  "CHR ''/'' \<notin> set n \<Longrightarrow> components_from cur n = [cur @ n]"
  by (induction n arbitrary: cur) auto

text \<open>A name without a directory part is a file of the working directory.\<close>

lemma resolve_file_name: "file_name n \<Longrightarrow> resolve files n = File n"
proof -
  assume n: "file_name n"
  then have c: "components n = [n]"
    by (simp add: components_def components_from_name file_name_def)
  from n have h: "hd n \<noteq> CHR ''/''" by (cases n) (auto simp: file_name_def)
  have "length (take (Suc (length (cwd files))) (cwd files)) \<noteq> length (cwd files @ [n])"
    by simp
  then have t: "take (Suc (length (cwd files))) (cwd files) \<noteq> cwd files @ [n]"
    by metis
  from n c h t show ?thesis
    by (simp add: resolve_def file_name_def NAME_MAX_def PATH_MAX_def)
qed

lemma resolve_no_nul: "resolve files path = File name \<Longrightarrow> CHR 0x00 \<notin> set path"
  by (auto simp: resolve_def split: if_splits)

lemma open_write_file:
  "resolve files path = File name \<Longrightarrow>
   open_write files path content =
     (files\<lparr>entries := setitem (entries files) name content,
            journal := journal files @ [Wrote name content]\<rparr>, None)"
  using resolve_no_nul[of files path name] by (simp add: open_write_def)

lemma open_read_file:
  "resolve files path = File name \<Longrightarrow>
   open_read files path =
     (case getitem_dict (entries files) name of Some content \<Rightarrow> Inr content | None \<Rightarrow> Inl OSError)"
  using resolve_no_nul[of files path name] by (simp add: open_read_def)

lemma contains_setitem: "contains (setitem d k v) k' = (k' = k \<or> contains d k')"
  by (simp add: contains_def setitem_keys_set)

lemma save_unknown_words_file:
  "resolve files path = File name \<Longrightarrow> resolve files (sidecar path) = File side \<Longrightarrow>
   save_unknown_words files path unknown_words =
     (files\<lparr>entries := setitem (setitem (entries files) name (csv_text unknown_words))
                         side (word_lines (sort (keys unknown_words))),
            journal := journal files @ [Wrote name (csv_text unknown_words),
                         Wrote side (word_lines (sort (keys unknown_words)))]\<rparr>,
      None)"
  by (simp add: save_unknown_words_def open_write_file Let_def)

section \<open>Saving and reloading the stores\<close>

text \<open>
  A known word survives the known-words file when it is what a line of the file can
  hold: no line break inside, no whitespace at either end. Every word that the
  program itself loads or adds is of this kind.
\<close>

definition plain_word :: "string \<Rightarrow> bool" where
  "plain_word w = (strip w = w \<and> newline \<notin> set w \<and> carriage_return \<notin> set w)"

lemma universal_no_cr: "carriage_return \<notin> set s \<Longrightarrow> universal_from False s = s"
  by (induction s) auto

lemma lines_from_word:
  "newline \<notin> set w \<Longrightarrow> carriage_return \<notin> set w \<Longrightarrow>
   lines_from cur (w @ newline # rest) = (cur @ w @ [newline]) # lines_from [] rest"
  by (induction w arbitrary: cur) (auto simp: ends_line_def)

lemma file_lines_word_lines:
  "\<forall>w \<in> set ws. newline \<notin> set w \<and> carriage_return \<notin> set w \<Longrightarrow>
   file_lines (word_lines ws) = map (\<lambda>w. w @ [newline]) ws"
  unfolding file_lines_def word_lines_def
  by (induction ws) (auto simp: lines_from_word)

lemma word_lines_no_cr:
  "\<forall>w \<in> set ws. carriage_return \<notin> set w \<Longrightarrow> carriage_return \<notin> set (word_lines ws)"
  by (auto simp: word_lines_def newline_def carriage_return_def)

lemma strip_newline: "strip (w @ [newline]) = strip w"
proof (cases "\<forall>c \<in> set w. isspace_chr c")
  case True
  then have a: "dropWhile isspace_chr (w @ [newline]) = []" and b: "dropWhile isspace_chr w = []"
    using newline_space by auto
  show ?thesis unfolding strip_def a b by simp
next
  case False
  then obtain x where "x \<in> set w" "\<not> isspace_chr x" by auto
  then have a: "dropWhile isspace_chr (w @ [newline]) = dropWhile isspace_chr w @ [newline]"
    by (rule dropWhile_append1)
  show ?thesis unfolding strip_def a using newline_space by simp
qed

text \<open>The known-words file.\<close>

lemma known_roundtrip:
  assumes "finite K" "\<forall>w \<in> K. plain_word w" "resolve files p = File n"
  shows "snd (save_known_words files p K) = None
         \<and> load_known_words (fst (save_known_words files p K)) p = Inr K"
proof -
  let ?ws = "sorted_list_of_set K"
  have ws: "set ?ws = K" using assms(1) by simp
  with assms(2) have pl: "\<forall>w \<in> set ?ws. plain_word w" by simp
  then have "text_mode_lines (word_lines ?ws) = map (\<lambda>w. w @ [newline]) ?ws"
    unfolding text_mode_lines_def universal_newlines_def
    by (simp add: universal_no_cr word_lines_no_cr file_lines_word_lines plain_word_def)
  moreover have "map strip (map (\<lambda>w. w @ [newline]) ?ws) = ?ws"
    using pl by (simp add: strip_newline plain_word_def map_idI)
  ultimately show ?thesis
    using ws assms(3)
    by (simp add: load_known_words_def save_known_words_def open_write_file path_exists_def
          open_read_file contains_setitem getitem_setitem)
qed

text \<open>
  The CSV file. For the proof the reader is run over the text directly: \<open>fused\<close>
  feeds the characters to the state machine, and the end-of-line mark where a line of
  the file ends.
\<close>

lemma process_line_append:
  "process_line r (a @ b) =
     (case process_line r a of Inl e \<Rightarrow> Inl e | Inr r' \<Rightarrow> process_line r' b)"
  by (induction a arbitrary: r) (auto split: sum.splits)

fun fused :: "reader \<Rightarrow> bool \<Rightarrow> string \<Rightarrow> py_error + string list list" where
  "fused r pending [] = (if pending then reader_loop r [[]] else reader_loop r [])"
| "fused r pending (c # s) =
     (case parse_process_char r (Some c) of
        Inl e \<Rightarrow> Inl e
      | Inr r1 \<Rightarrow>
          if ends_line c s then
            (case parse_process_char r1 None of
               Inl e \<Rightarrow> Inl e
             | Inr r2 \<Rightarrow>
                 if pstate r2 = START_RECORD then
                   (case fused parse_reset False s of
                      Inl e \<Rightarrow> Inl e
                    | Inr rows \<Rightarrow> Inr (pfields r2 # rows))
                 else fused r2 False s)
          else fused r1 True s)"

lemma lines_from_nonempty:
  "cur \<noteq> [] \<Longrightarrow> \<exists>x rest. lines_from cur s = (cur @ x) # rest"
proof (induction s arbitrary: cur)
  case Nil
  then show ?case by simp
next
  case (Cons c s)
  show ?case
  proof (cases "ends_line c s")
    case True
    then show ?thesis by simp
  next
    case False
    from Cons.IH[of "cur @ [c]"] obtain x rest where "lines_from (cur @ [c]) s = ((cur @ [c]) @ x) # rest"
      by auto
    with False show ?thesis by simp
  qed
qed

lemma reader_loop_fused:
  "process_line r cur = Inr r1 \<Longrightarrow> reader_loop r (lines_from cur s) = fused r1 (cur \<noteq> []) s"
proof (induction s arbitrary: r cur r1)
  case Nil
  then show ?case by (auto split: sum.splits)
next
  case (Cons c s)
  show ?case
  proof (cases "parse_process_char r1 (Some c)")
    case (Inl e)
    then have pl: "process_line r (cur @ [c]) = Inl e"
      using Cons.prems by (simp add: process_line_append)
    obtain x rest where "lines_from (cur @ [c]) s = ((cur @ [c]) @ x) # rest"
      using lines_from_nonempty[of "cur @ [c]" s] by auto
    then have "reader_loop r (lines_from (cur @ [c]) s) = Inl e"
      using pl by (simp add: process_line_append[of r "cur @ [c]"] del: append_assoc)
    then show ?thesis using Inl pl by auto
  next
    case (Inr r2)
    then have pl: "process_line r (cur @ [c]) = Inr r2"
      using Cons.prems by (simp add: process_line_append)
    show ?thesis
    proof (cases "ends_line c s")
      case True
      have a: "reader_loop parse_reset (lines_from [] s) = fused parse_reset False s"
        using Cons.IH[of parse_reset "[]" parse_reset] by simp
      have b: "reader_loop r3 (lines_from [] s) = fused r3 False s" for r3
        using Cons.IH[of r3 "[]" r3] by simp
      show ?thesis using True Inr pl a b by (auto split: sum.splits)
    next
      case False
      then show ?thesis using Inr pl Cons.IH[of r "cur @ [c]" r2] by simp
    qed
  qed
qed

lemma csv_reader_fused: "csv_reader (file_lines content) = fused parse_reset False content"
  using reader_loop_fused[of parse_reset "[]" parse_reset content]
  by (simp add: csv_reader_def file_lines_def)

definition escape :: "string \<Rightarrow> string" where
  "escape f = concat (map (\<lambda>c. if c = quotechar then [quotechar, quotechar] else [c]) f)"

lemma quote_not_nl: "\<not> is_nl quotechar" "\<not> ends_line quotechar s" "quotechar \<noteq> delimiter"
  "\<not> is_nl delimiter" "\<not> ends_line delimiter s" "delimiter \<noteq> quotechar"
  by (simp_all add: is_nl_def ends_line_def quotechar_def delimiter_def newline_def carriage_return_def)

text \<open>One character of a quoted field: a doubled quote, or any other character.\<close>

lemma quoted_step:
  assumes "pstate r = IN_QUOTED_FIELD"
  shows "\<exists>q. fused r p (escape (c # f) @ rest) =
           (if field_limit \<le> length (pfield r) then Inl CsvError
            else fused (r\<lparr>pfield := pfield r @ [c]\<rparr>) q (escape f @ rest))"
proof (cases "c = quotechar")
  case True
  have eq: "r\<lparr>pfield := pfield r @ [quotechar], pstate := IN_QUOTED_FIELD\<rparr>
      = r\<lparr>pfield := pfield r @ [quotechar]\<rparr>"
    using assms by simp
  show ?thesis
    using True assms
    by (auto simp: escape_def parse_process_char_def parse_add_char_def then_state_def quote_not_nl eq)
next
  case False
  show ?thesis
    using False assms by (auto simp: escape_def parse_process_char_def parse_add_char_def)
qed

lemma fused_quoted:
  "pstate r = IN_QUOTED_FIELD \<Longrightarrow> length (pfield r) + length f \<le> field_limit \<Longrightarrow>
   fused r p (escape f @ quotechar # rest) =
   fused (r\<lparr>pfield := pfield r @ f, pstate := QUOTE_IN_QUOTED_FIELD\<rparr>) True rest"
proof (induction f arbitrary: r p)
  case Nil
  then show ?case
    by (simp add: escape_def parse_process_char_def quote_not_nl)
next
  case (Cons c f)
  let ?r1 = "r\<lparr>pfield := pfield r @ [c]\<rparr>"
  have room: "\<not> field_limit \<le> length (pfield r)" using Cons.prems(2) by simp
  from quoted_step[OF Cons.prems(1), of p c f "quotechar # rest"] room
  obtain q where "fused r p (escape (c # f) @ quotechar # rest)
      = fused ?r1 q (escape f @ quotechar # rest)" by auto
  also have "\<dots> = fused (?r1\<lparr>pfield := pfield ?r1 @ f, pstate := QUOTE_IN_QUOTED_FIELD\<rparr>) True rest"
    by (rule Cons.IH) (use Cons.prems in simp_all)
  finally show ?case by simp
qed

text \<open>A quoted field that is longer than the limit stops the reader.\<close>

lemma fused_quoted_overflow:
  "pstate r = IN_QUOTED_FIELD \<Longrightarrow> length (pfield r) \<le> field_limit \<Longrightarrow>
   field_limit < length (pfield r) + length f \<Longrightarrow>
   fused r p (escape f @ rest) = Inl CsvError"
proof (induction f arbitrary: r p)
  case Nil
  then show ?case by simp
next
  case (Cons c f)
  let ?r1 = "r\<lparr>pfield := pfield r @ [c]\<rparr>"
  from quoted_step[OF Cons.prems(1), of p c f rest]
  obtain q where q: "fused r p (escape (c # f) @ rest) =
           (if field_limit \<le> length (pfield r) then Inl CsvError
            else fused ?r1 q (escape f @ rest))" by auto
  show ?case
  proof (cases "field_limit \<le> length (pfield r)")
    case True
    with q show ?thesis by simp
  next
    case False
    have "fused ?r1 q (escape f @ rest) = Inl CsvError"
      by (rule Cons.IH) (use Cons.prems False in simp_all)
    with q False show ?thesis by simp
  qed
qed

lemma quote_field_escape: "quote_field f = quotechar # escape f @ [quotechar]"
  by (simp add: quote_field_def escape_def)

lemma fused_row:
  assumes "length w \<le> field_limit" "length t \<le> field_limit" "length s \<le> field_limit"
  shows "fused parse_reset p (writerow [w, t, s] @ rest) =
     (case fused parse_reset False rest of Inl e \<Rightarrow> Inl e | Inr rows \<Rightarrow> Inr ([w, t, s] # rows))"
proof -
  let ?r1 = "\<lparr>pstate = IN_QUOTED_FIELD, pfield = [], pfields = []\<rparr>"
  let ?r2 = "\<lparr>pstate = IN_QUOTED_FIELD, pfield = [], pfields = [w]\<rparr>"
  let ?r3 = "\<lparr>pstate = IN_QUOTED_FIELD, pfield = [], pfields = [w, t]\<rparr>"
  let ?tail3 = "carriage_return # newline # rest"
  let ?tail2 = "delimiter # quotechar # escape s @ quotechar # ?tail3"
  let ?tail1 = "delimiter # quotechar # escape t @ quotechar # ?tail2"
  have shape: "writerow [w, t, s] @ rest = quotechar # escape w @ quotechar # ?tail1"
    by (simp add: writerow_def quote_field_escape)
  have s1: "fused parse_reset p (quotechar # escape w @ quotechar # ?tail1)
      = fused ?r1 True (escape w @ quotechar # ?tail1)"
    by (simp add: parse_reset_def parse_process_char_def start_field_def quote_not_nl)
  have s2: "fused ?r1 True (escape w @ quotechar # ?tail1)
      = fused (?r1\<lparr>pfield := pfield ?r1 @ w, pstate := QUOTE_IN_QUOTED_FIELD\<rparr>) True ?tail1"
    by (rule fused_quoted) (use assms in simp_all)
  have s3: "fused (?r1\<lparr>pfield := pfield ?r1 @ w, pstate := QUOTE_IN_QUOTED_FIELD\<rparr>) True ?tail1
      = fused ?r2 True (escape t @ quotechar # ?tail2)"
    by (simp add: parse_process_char_def start_field_def parse_save_field_def quote_not_nl)
  have s4: "fused ?r2 True (escape t @ quotechar # ?tail2)
      = fused (?r2\<lparr>pfield := pfield ?r2 @ t, pstate := QUOTE_IN_QUOTED_FIELD\<rparr>) True ?tail2"
    by (rule fused_quoted) (use assms in simp_all)
  have s5: "fused (?r2\<lparr>pfield := pfield ?r2 @ t, pstate := QUOTE_IN_QUOTED_FIELD\<rparr>) True ?tail2
      = fused ?r3 True (escape s @ quotechar # ?tail3)"
    by (simp add: parse_process_char_def start_field_def parse_save_field_def quote_not_nl)
  have s6: "fused ?r3 True (escape s @ quotechar # ?tail3)
      = fused (?r3\<lparr>pfield := pfield ?r3 @ s, pstate := QUOTE_IN_QUOTED_FIELD\<rparr>) True ?tail3"
    by (rule fused_quoted) (use assms in simp_all)
  have s7: "fused (?r3\<lparr>pfield := pfield ?r3 @ s, pstate := QUOTE_IN_QUOTED_FIELD\<rparr>) True ?tail3
      = (case fused parse_reset False rest of Inl e \<Rightarrow> Inl e | Inr rows \<Rightarrow> Inr ([w, t, s] # rows))"
    by (simp add: parse_process_char_def parse_save_field_def is_nl_def ends_line_def
          quotechar_def delimiter_def newline_def carriage_return_def split: sum.splits)
  show ?thesis unfolding shape s1 s2 s3 s4 s5 s6 s7 ..
qed

lemma fused_row_overflow:
  assumes "length w \<le> field_limit" "length t \<le> field_limit" "field_limit < length s"
  shows "fused parse_reset p (writerow [w, t, s] @ rest) = Inl CsvError"
proof -
  let ?r1 = "\<lparr>pstate = IN_QUOTED_FIELD, pfield = [], pfields = []\<rparr>"
  let ?r2 = "\<lparr>pstate = IN_QUOTED_FIELD, pfield = [], pfields = [w]\<rparr>"
  let ?r3 = "\<lparr>pstate = IN_QUOTED_FIELD, pfield = [], pfields = [w, t]\<rparr>"
  let ?tail3 = "quotechar # carriage_return # newline # rest"
  let ?tail2 = "delimiter # quotechar # escape s @ ?tail3"
  let ?tail1 = "delimiter # quotechar # escape t @ quotechar # ?tail2"
  have shape: "writerow [w, t, s] @ rest = quotechar # escape w @ quotechar # ?tail1"
    by (simp add: writerow_def quote_field_escape)
  have s1: "fused parse_reset p (quotechar # escape w @ quotechar # ?tail1)
      = fused ?r1 True (escape w @ quotechar # ?tail1)"
    by (simp add: parse_reset_def parse_process_char_def start_field_def quote_not_nl)
  have s2: "fused ?r1 True (escape w @ quotechar # ?tail1)
      = fused (?r1\<lparr>pfield := pfield ?r1 @ w, pstate := QUOTE_IN_QUOTED_FIELD\<rparr>) True ?tail1"
    by (rule fused_quoted) (use assms in simp_all)
  have s3: "fused (?r1\<lparr>pfield := pfield ?r1 @ w, pstate := QUOTE_IN_QUOTED_FIELD\<rparr>) True ?tail1
      = fused ?r2 True (escape t @ quotechar # ?tail2)"
    by (simp add: parse_process_char_def start_field_def parse_save_field_def quote_not_nl)
  have s4: "fused ?r2 True (escape t @ quotechar # ?tail2)
      = fused (?r2\<lparr>pfield := pfield ?r2 @ t, pstate := QUOTE_IN_QUOTED_FIELD\<rparr>) True ?tail2"
    by (rule fused_quoted) (use assms in simp_all)
  have s5: "fused (?r2\<lparr>pfield := pfield ?r2 @ t, pstate := QUOTE_IN_QUOTED_FIELD\<rparr>) True ?tail2
      = fused ?r3 True (escape s @ ?tail3)"
    by (simp add: parse_process_char_def start_field_def parse_save_field_def quote_not_nl)
  have s6: "fused ?r3 True (escape s @ ?tail3) = Inl CsvError"
    by (rule fused_quoted_overflow) (use assms in simp_all)
  show ?thesis unfolding shape s1 s2 s3 s4 s5 s6 ..
qed

definition row_of :: "string \<times> details \<Rightarrow> string list" where
  "row_of e = [fst e, translation (snd e), sentence (snd e)]"

text \<open>The entries whose three fields the reader takes.\<close>

definition fields_fit :: "string \<times> details \<Rightarrow> bool" where
  "fields_fit e = (length (fst e) \<le> field_limit \<and> length (translation (snd e)) \<le> field_limit
     \<and> length (sentence (snd e)) \<le> field_limit)"

lemma csv_text_Cons: "csv_text (e # m) = writerow (row_of e) @ csv_text m"
  by (cases e) (simp add: csv_text_def row_of_def)

lemma fused_csv_text:
  "list_all fields_fit m \<Longrightarrow> fused parse_reset False (csv_text m) = Inr (map row_of m)"
proof (induction m)
  case Nil
  show ?case by (simp add: csv_text_def end_of_input_def parse_reset_def)
next
  case (Cons e m)
  then have f: "length (fst e) \<le> field_limit" "length (translation (snd e)) \<le> field_limit"
      "length (sentence (snd e)) \<le> field_limit"
    by (simp_all add: fields_fit_def)
  from Cons have "fused parse_reset False (csv_text m) = Inr (map row_of m)" by simp
  then show ?case unfolding csv_text_Cons row_of_def[of e] fused_row[OF f]
    by (simp add: row_of_def)
qed

lemma rows_loop_rows:
  "distinct (keys (acc @ m)) \<Longrightarrow> rows_loop (map row_of m) acc = acc @ m"
proof (induction m arbitrary: acc)
  case Nil
  show ?case by simp
next
  case (Cons e m)
  have new: "fst e \<notin> set (keys acc)" using Cons.prems by (auto simp: keys_def)
  have "rows_loop (map row_of (e # m)) acc = rows_loop (map row_of m) (acc @ [e])"
    using setitem_new[OF new] by (cases e, cases "snd e") (simp add: row_of_def)
  also have "\<dots> = (acc @ [e]) @ m"
    by (rule Cons.IH) (use Cons.prems in \<open>simp add: keys_def\<close>)
  finally show ?case by simp
qed

lemma load_after_save:
  assumes "resolve files p = File n" "resolve files (sidecar p) = File side" "side \<noteq> n"
  shows "load_unknown_words (fst (save_unknown_words files p m)) p =
     (case fused parse_reset False (csv_text m) of
        Inl e \<Rightarrow> Inl e
      | Inr rows \<Rightarrow> Inr (rows_loop rows []))"
  using assms
  by (simp add: save_unknown_words_file load_unknown_words_def path_exists_def open_read_file
        contains_setitem getitem_setitem csv_reader_fused)

lemma unknown_roundtrip:
  assumes "distinct (keys m)" "list_all fields_fit m" "resolve files p = File n"
    "resolve files (sidecar p) = File side" "side \<noteq> n"
  shows "snd (save_unknown_words files p m) = None
         \<and> load_unknown_words (fst (save_unknown_words files p m)) p = Inr m"
proof -
  have "snd (save_unknown_words files p m) = None"
    using assms(3,4) by (simp add: save_unknown_words_file)
  moreover have "load_unknown_words (fst (save_unknown_words files p m)) p = Inr m"
    unfolding load_after_save[OF assms(3,4,5)] fused_csv_text[OF assms(2)]
    using assms(1) rows_loop_rows[of "[]" m] by simp
  ultimately show ?thesis by simp
qed

lemma unknown_overflow:
  assumes "resolve files p = File n" "resolve files (sidecar p) = File side" "side \<noteq> n"
    and "length w \<le> field_limit" "length t \<le> field_limit" "field_limit < length s"
  shows "load_unknown_words
           (fst (save_unknown_words files p ((w, \<lparr>translation = t, sentence = s\<rparr>) # m))) p
         = Inl CsvError"
  using assms(1,2,3) fused_row_overflow[OF assms(4,5,6)]
  by (simp add: load_after_save csv_text_Cons row_of_def)

text \<open>
  The reader raises on the lines of a file only when a field is too long: the state
  that rejects a character is entered on a line ending only, and nothing but the rest
  of that ending follows it. So a file of at most \<open>field_limit\<close> characters is read.
\<close>

lemma eol_total:
  "\<exists>r'. parse_process_char r None = Inr r' \<and> pstate r' \<noteq> EAT_CRNL
         \<and> length (pfield r') \<le> length (pfield r)"
  by (cases "pstate r") (auto simp: parse_process_char_def start_field_def parse_save_field_def)

lemma char_total:
  "pstate r \<noteq> EAT_CRNL \<or> is_nl c \<Longrightarrow> length (pfield r) < field_limit \<Longrightarrow>
   \<exists>r'. parse_process_char r (Some c) = Inr r' \<and> (pstate r' = EAT_CRNL \<longrightarrow> is_nl c)
         \<and> length (pfield r') \<le> Suc (length (pfield r))"
  by (cases "pstate r")
     (auto simp: parse_process_char_def start_field_def parse_save_field_def parse_add_char_def then_state_def)

lemma reader_loop_end: "\<exists>rows. reader_loop r [] = Inr rows" "\<exists>rows. reader_loop r [[]] = Inr rows"
  using eol_total[of r] by (auto split: sum.splits)

lemma fused_total:
  "pstate r = EAT_CRNL \<longrightarrow> s = [] \<or> hd s = newline \<Longrightarrow>
   length (pfield r) + length s \<le> field_limit \<Longrightarrow> \<exists>rows. fused r p s = Inr rows"
proof (induction s arbitrary: r p)
  case Nil
  then show ?case using reader_loop_end[of r] by auto
next
  case (Cons c s)
  have "pstate r \<noteq> EAT_CRNL \<or> is_nl c" using Cons.prems(1) by (auto simp: is_nl_def)
  moreover have "length (pfield r) < field_limit" using Cons.prems(2) by simp
  ultimately obtain r1 where
    r1: "parse_process_char r (Some c) = Inr r1" "pstate r1 = EAT_CRNL \<longrightarrow> is_nl c"
      "length (pfield r1) \<le> Suc (length (pfield r))"
    using char_total by blast
  have l1: "length (pfield r1) + length s \<le> field_limit" using r1(3) Cons.prems(2) by simp
  show ?case
  proof (cases "ends_line c s")
    case True
    obtain r2 where r2: "parse_process_char r1 None = Inr r2" "pstate r2 \<noteq> EAT_CRNL"
        "length (pfield r2) \<le> length (pfield r1)"
      using eol_total[of r1] by auto
    have a: "\<exists>rows. fused r2 False s = Inr rows" using r2 l1 by (intro Cons.IH) simp_all
    have b: "\<exists>rows. fused parse_reset False s = Inr rows"
      using Cons.prems(2) by (intro Cons.IH) (simp_all add: parse_reset_def)
    show ?thesis using True r1 r2 a b by auto
  next
    case False
    have "pstate r1 = EAT_CRNL \<longrightarrow> s = [] \<or> hd s = newline"
      using False r1(2) by (auto simp: ends_line_def is_nl_def split: list.splits)
    then have "\<exists>rows. fused r1 True s = Inr rows" using l1 by (rule Cons.IH)
    then show ?thesis using False r1 by auto
  qed
qed

lemma csv_reader_total:
  "length content \<le> field_limit \<Longrightarrow> \<exists>rows. csv_reader (file_lines content) = Inr rows"
  unfolding csv_reader_fused by (rule fused_total) (simp_all add: parse_reset_def)



text \<open>
  C6, as the code has it. The round trip of the known-words file holds for sets of
  words that a line can hold. The round trip of the CSV holds for the mappings whose
  fields are within the reader's field size limit, all fields being quoted, when the
  CSV path and the name of its sidecar are two files of the working directory (the
  sidecar is written second, and \<open>UNKNOWN_WORDS_FILE\<close> ends in \<open>.csv\<close>).
\<close>

theorem stores_roundtrip:
  assumes "finite known_words" and "\<forall>w \<in> known_words. plain_word w"
    and "resolve files known_path = File known_name"
    and "distinct (keys unknown_words)" and "list_all fields_fit unknown_words"
    and "resolve files csv_path = File csv_name"
    and "resolve files (sidecar csv_path) = File sidecar_name" and "sidecar_name \<noteq> csv_name"
  shows "snd (save_known_words files known_path known_words) = None
         \<and> load_known_words (fst (save_known_words files known_path known_words)) known_path
           = Inr known_words
         \<and> snd (save_unknown_words files csv_path unknown_words) = None
         \<and> load_unknown_words (fst (save_unknown_words files csv_path unknown_words)) csv_path
           = Inr unknown_words"
  using known_roundtrip[OF assms(1,2,3)] unknown_roundtrip[OF assms(4,5,6,7,8)] by simp

text \<open>
  A directory with nothing in it, and a store with a comma, a quote and a line ending
  inside its fields, saved through a path that has a \<open>.\<close> in front.
\<close>

definition fresh_directory :: fs where
  "fresh_directory = \<lparr>cwd = [''home'', ''reader''], entries = [], journal = []\<rparr>"

theorem stores_roundtrip_witness:
  "finite (set [''pear'', ''apple''])
   \<and> plain_word ''pear'' \<and> plain_word ''apple''
   \<and> resolve fresh_directory KNOWN_WORDS_FILE = File KNOWN_WORDS_FILE
   \<and> distinct (keys [(''quick'', \<lparr>translation = ''a, b'', sentence = [quotechar, CHR ''x'', carriage_return, newline, CHR ''y'']\<rparr>)])
   \<and> list_all fields_fit [(''quick'', \<lparr>translation = ''a, b'', sentence = [quotechar, CHR ''x'', carriage_return, newline, CHR ''y'']\<rparr>)]
   \<and> resolve fresh_directory ''./book.csv'' = File ''book.csv''
   \<and> resolve fresh_directory (sidecar ''./book.csv'') = File ''book.words''
   \<and> ''book.words'' \<noteq> ''book.csv''
   \<and> load_known_words
         (fst (save_known_words fresh_directory KNOWN_WORDS_FILE (set [''pear'', ''apple''])))
         KNOWN_WORDS_FILE = Inr (set [''pear'', ''apple''])
   \<and> load_unknown_words
         (fst (save_unknown_words fresh_directory ''./book.csv''
            [(''quick'', \<lparr>translation = ''a, b'', sentence = [quotechar, CHR ''x'', carriage_return, newline, CHR ''y'']\<rparr>)]))
         ''./book.csv''
       = Inr [(''quick'', \<lparr>translation = ''a, b'', sentence = [quotechar, CHR ''x'', carriage_return, newline, CHR ''y'']\<rparr>)]"
proof -
  let ?U = "[(''quick'', \<lparr>translation = ''a, b'', sentence = [quotechar, CHR ''x'', carriage_return, newline, CHR ''y'']\<rparr>)]"
  have h1: "finite (set [''pear'', ''apple''])" by simp
  have p1: "plain_word ''pear''" and p2: "plain_word ''apple''" by code_simp+
  then have h2: "\<forall>w \<in> set [''pear'', ''apple'']. plain_word w" by simp
  have h3: "resolve fresh_directory KNOWN_WORDS_FILE = File KNOWN_WORDS_FILE" by code_simp
  have h4: "distinct (keys ?U)" by (simp add: keys_def)
  have h5: "list_all fields_fit ?U" by (simp add: fields_fit_def field_limit_def)
  have h6: "resolve fresh_directory ''./book.csv'' = File ''book.csv''" by code_simp
  have h7: "resolve fresh_directory (sidecar ''./book.csv'') = File ''book.words''"
    by code_simp
  have h8: "''book.words'' \<noteq> ''book.csv''" by simp
  from h1 p1 p2 h3 h4 h5 h6 h7 h8 stores_roundtrip[OF h1 h2 h3 h4 h5 h6 h7 h8]
  show ?thesis by simp
qed

text \<open>
  C6, as stated, is about every set of strings and every mapping. A word with a leading
  space is written with it and read back without it. A store saved under a path that
  is the name of its own sidecar is overwritten by the sidecar, and reloads as the
  empty mapping. A store with a sentence of 131073 characters is written, and reading
  it back raises \<open>csv.Error\<close>. Saving to a path that names a directory raises
  an \<open>OSError\<close>, and so does saving a store under a name of 254 bytes, whose
  sidecar would have a name of 256 bytes, once the CSV is written.
\<close>

theorem stores_roundtrip_fails:
  "load_known_words
       (fst (save_known_words fresh_directory KNOWN_WORDS_FILE (set ['' a''])))
       KNOWN_WORDS_FILE = Inr (set [''a''])
   \<and> set [''a''] \<noteq> set ['' a'']
   \<and> load_unknown_words
       (fst (save_unknown_words fresh_directory ''./x.words''
          [(''w'', \<lparr>translation = ''t'', sentence = ''s''\<rparr>)])) ''./x.words'' = Inr []
   \<and> load_unknown_words
       (fst (save_unknown_words fresh_directory UNKNOWN_WORDS_FILE
          [(''w'', \<lparr>translation = [], sentence = replicate 131073 (CHR ''a'')\<rparr>)]))
       UNKNOWN_WORDS_FILE = Inl CsvError
   \<and> save_known_words fresh_directory ''.'' (set [''a'']) = (fresh_directory, Some OSError)
   \<and> snd (save_unknown_words fresh_directory (replicate 250 (CHR ''x'') @ ''.csv'') [])
       = Some OSError"
proof -
  have a: "load_known_words
       (fst (save_known_words fresh_directory KNOWN_WORDS_FILE (set ['' a''])))
       KNOWN_WORDS_FILE = Inr (set [''a''])"
    by code_simp
  have b: "set [''a''] \<noteq> set ['' a'']" by simp
  have c: "load_unknown_words
       (fst (save_unknown_words fresh_directory ''./x.words''
          [(''w'', \<lparr>translation = ''t'', sentence = ''s''\<rparr>)])) ''./x.words'' = Inr []"
    by code_simp
  have r: "resolve fresh_directory UNKNOWN_WORDS_FILE = File UNKNOWN_WORDS_FILE" by code_simp
  have s: "resolve fresh_directory (sidecar UNKNOWN_WORDS_FILE) = File (sidecar UNKNOWN_WORDS_FILE)"
    by code_simp
  have n: "sidecar UNKNOWN_WORDS_FILE \<noteq> UNKNOWN_WORDS_FILE" by code_simp
  have d: "load_unknown_words
       (fst (save_unknown_words fresh_directory UNKNOWN_WORDS_FILE
          [(''w'', \<lparr>translation = [], sentence = replicate 131073 (CHR ''a'')\<rparr>)]))
       UNKNOWN_WORDS_FILE = Inl CsvError"
    by (rule unknown_overflow[OF r s n]) (simp_all add: field_limit_def)
  have e: "save_known_words fresh_directory ''.'' (set [''a'']) = (fresh_directory, Some OSError)"
    by code_simp
  have f: "snd (save_unknown_words fresh_directory (replicate 250 (CHR ''x'') @ ''.csv'') [])
       = Some OSError"
    by code_simp
  from a b c d e f show ?thesis by (intro conjI)
qed

section \<open>The interactive classifier\<close>

text \<open>
  What \<open>stdscr.getch()\<close> delivers: one of the two arrow keys, any other key code, or
  the \<open>KeyboardInterrupt\<close> that the user's interruption raises while the loop
  waits (\<open>CtrlC\<close>). The list of keys is what the user does during the session; when
  it runs out the loop waits forever (\<open>Blocked\<close>) and the function does not return.
\<close>

datatype key = KEY_LEFT | KEY_RIGHT | OtherKey int | CtrlC

text \<open>
  The screen shows, for each word presented, the counter, the total, the word and its
  sentence, and the message of the interruption handler. \<open>stdscr.addstr\<close> raises
  \<open>curses.error\<close> when the text runs past the end of the window, which depends on
  the size of the terminal: whether the window takes what is written to it is the
  parameter \<open>fits\<close>.
\<close>

datatype screen_event = Shown nat nat string string | Exiting

record session =
  known :: "string set"
  unknown :: "(string, details) dict"
  screen :: "screen_event list"

text \<open>
  How the \<open>try\<close> block ends: the loop has run to its end, the user has interrupted
  it, another exception has left it, or it never ends.
\<close>

datatype flow = Completed | Interrupted | Failed py_error | Blocked

text \<open>The inner \<open>while True\<close> loop of one word.\<close>

fun getch_loop :: "string \<Rightarrow> string \<Rightarrow> key list \<Rightarrow> session \<Rightarrow> flow \<times> session \<times> key list" where
  "getch_loop word sent [] st = (Blocked, st, [])"
| "getch_loop word sent (k # ks) st =
     (case k of
        KEY_LEFT \<Rightarrow> (Completed, st\<lparr>known := insert word (known st)\<rparr>, ks)
      | KEY_RIGHT \<Rightarrow>
          (Completed,
           st\<lparr>unknown := setitem (unknown st) word \<lparr>translation = [], sentence = sent\<rparr>\<rparr>, ks)
      | OtherKey c \<Rightarrow> getch_loop word sent ks st
      | CtrlC \<Rightarrow> (Interrupted, st, ks))"

text \<open>The \<open>for\<close> loop of the \<open>try\<close> block.\<close>

fun review_loop ::
  "(screen_event \<Rightarrow> bool) \<Rightarrow> nat \<Rightarrow> nat \<Rightarrow> (string, string) dict \<Rightarrow> key list \<Rightarrow> session
     \<Rightarrow> flow \<times> session" where
  "review_loop fits cnt tot [] ks st = (Completed, st)"
| "review_loop fits cnt tot ((word, sent) # rest) ks st =
     (if fits (Shown (cnt + 1) tot word sent) then
        (case getch_loop word sent ks (st\<lparr>screen := screen st @ [Shown (cnt + 1) tot word sent]\<rparr>) of
           (Completed, st', ks') \<Rightarrow> review_loop fits (cnt + 1) tot rest ks' st'
         | (fl, st', ks') \<Rightarrow> (fl, st'))
      else (Failed CursesError, st))"

text \<open>The loop that removes the words already processed.\<close>

fun newlist_loop ::
  "(string, string) dict \<Rightarrow> string set \<Rightarrow> (string, details) dict \<Rightarrow> string set
     \<Rightarrow> (string, string) dict \<Rightarrow> (string, string) dict" where
  "newlist_loop [] known_words unknown_words otherbook_words newlist = newlist"
| "newlist_loop ((word, v) # rest) known_words unknown_words otherbook_words newlist =
     (if word \<in> known_words \<or> contains unknown_words word \<or> word \<in> otherbook_words
      then newlist_loop rest known_words unknown_words otherbook_words newlist
      else newlist_loop rest known_words unknown_words otherbook_words (setitem newlist word v))"

text \<open>
  \<open>review\<close> is \<open>classify_words\<close> up to the end of the \<open>try\<close> block: the three
  loads, the prompt, the filter and the loop. The loads and the prompt come before the
  \<open>try\<close>, so an exception of theirs leaves the function at once (\<open>Inl\<close>);
  \<open>prompt\<close> is what \<open>input\<close> does, which returns (\<open>None\<close>) or raises
  \<open>KeyboardInterrupt\<close> or \<open>EOFError\<close>. Otherwise \<open>review\<close> gives how the
  \<open>try\<close> block ended and the state in memory at that moment.
\<close>

definition review ::
  "(screen_event \<Rightarrow> bool) \<Rightarrow> py_error option \<Rightarrow> fs \<Rightarrow> (string, string) dict \<Rightarrow> key list
     \<Rightarrow> py_error + flow \<times> session" where
  "review fits prompt files wordlist ks =
     (case load_known_words files KNOWN_WORDS_FILE of
        Inl e \<Rightarrow> Inl e
      | Inr known_words \<Rightarrow>
     (case load_unknown_words files UNKNOWN_WORDS_FILE of
        Inl e \<Rightarrow> Inl e
      | Inr unknown_words \<Rightarrow>
          (let otherbook_words = load_otherbook_words files UNKNOWN_WORDS_FILE
           in case prompt of
                Some e \<Rightarrow> Inl e
              | None \<Rightarrow>
                  (let newlist = newlist_loop wordlist known_words unknown_words otherbook_words []
                   in Inr (review_loop fits 0 (length newlist) newlist ks
                             \<lparr>known = known_words, unknown = unknown_words, screen = []\<rparr>)))))"

text \<open>
  The \<open>except KeyboardInterrupt\<close> clause writes its message, which the window may
  refuse as well; it gives the exception that is pending when the \<open>finally\<close> clause
  starts, and the screen.
\<close>

definition except_clause ::
  "(screen_event \<Rightarrow> bool) \<Rightarrow> flow \<Rightarrow> screen_event list \<Rightarrow> py_error option \<times> screen_event list" where
  "except_clause fits fl scr =
     (case fl of
        Completed \<Rightarrow> (None, scr)
      | Interrupted \<Rightarrow> if fits Exiting then (None, scr @ [Exiting]) else (Some CursesError, scr)
      | Failed e \<Rightarrow> (Some e, scr)
      | Blocked \<Rightarrow> (None, scr))"

text \<open>The \<open>finally\<close> clause.\<close>

definition finally_clause :: "fs \<Rightarrow> session \<Rightarrow> fs \<times> py_error option" where
  "finally_clause files st =
     (case save_known_words files KNOWN_WORDS_FILE (known st) of
        (files1, Some e) \<Rightarrow> (files1, Some e)
      | (files1, None) \<Rightarrow> save_unknown_words files1 UNKNOWN_WORDS_FILE (unknown st))"

text \<open>
  \<open>classify_words\<close> leaves a file system and a screen, and returns the dictionary
  \<open>unknown_words\<close> or raises; \<open>None\<close> stands for a session that never ends. An
  exception raised in the \<open>finally\<close> clause replaces the pending one.
\<close>

record outcome =
  out_files :: fs
  out_value :: "py_error + (string, details) dict"
  out_screen :: "screen_event list"

definition classify_words ::
  "(screen_event \<Rightarrow> bool) \<Rightarrow> py_error option \<Rightarrow> fs \<Rightarrow> (string, string) dict \<Rightarrow> key list
     \<Rightarrow> outcome option" where
  "classify_words fits prompt files wordlist ks =
     (case review fits prompt files wordlist ks of
        Inl e \<Rightarrow> Some \<lparr>out_files = files, out_value = Inl e, out_screen = []\<rparr>
      | Inr (fl, st) \<Rightarrow>
          if fl = Blocked then None
          else
            (case except_clause fits fl (screen st) of
               (pending, scr) \<Rightarrow>
                 (case finally_clause files st of
                    (files', Some e) \<Rightarrow>
                      Some \<lparr>out_files = files', out_value = Inl e, out_screen = scr\<rparr>
                  | (files', None) \<Rightarrow>
                      Some \<lparr>out_files = files',
                            out_value = (case pending of Some e \<Rightarrow> Inl e
                                         | None \<Rightarrow> Inr (unknown st)),
                            out_screen = scr\<rparr>)))"

fun shown_words :: "screen_event list \<Rightarrow> string list" where
  "shown_words [] = []"
| "shown_words (Shown c t w s # evs) = w # shown_words evs"
| "shown_words (Exiting # evs) = shown_words evs"

subsection \<open>What the files are to hold\<close>

text \<open>
  The text of the three files, written out from the formats: a line for each word, and
  for the CSV a line for each entry, with its three fields between double quotes (a
  double quote inside a field doubled), commas between them and \<open>\r\n\<close> at the
  end. The names of the files are the ones that the constants of the program come to.
\<close>

fun doubled :: "string \<Rightarrow> string" where
  "doubled [] = []"
| "doubled (c # s) = (if c = CHR 0x22 then [c, c] else [c]) @ doubled s"

definition csv_line :: "string \<times> details \<Rightarrow> string" where
  "csv_line e =
     [CHR 0x22] @ doubled (fst e) @ [CHR 0x22] @ '','' @
     [CHR 0x22] @ doubled (translation (snd e)) @ [CHR 0x22] @ '','' @
     [CHR 0x22] @ doubled (sentence (snd e)) @ [CHR 0x22] @ [CHR 0x0D, CHR 0x0A]"

definition known_text :: "string set \<Rightarrow> string" where
  "known_text known_words =
     concat (map (\<lambda>w. w @ [CHR 0x0A]) (sorted_list_of_set known_words))"

definition unknown_text :: "(string, details) dict \<Rightarrow> string" where
  "unknown_text unknown_words = concat (map csv_line unknown_words)"

definition sidecar_text :: "(string, details) dict \<Rightarrow> string" where
  "sidecar_text unknown_words =
     concat (map (\<lambda>w. w @ [CHR 0x0A]) (sort (map fst unknown_words)))"

definition known_file :: string where
  "known_file = ''.KNOWN_WORDS.txt''"

definition unknown_file :: string where
  "unknown_file = ''Geronimo Stilton Spacemice - Book 3 - Ice Planet Adventure.csv''"

definition sidecar_file :: string where
  "sidecar_file = ''Geronimo Stilton Spacemice - Book 3 - Ice Planet Adventure.words''"

lemma file_names:
  "KNOWN_WORDS_FILE = known_file"
  "UNKNOWN_WORDS_FILE = unknown_file"
  "sidecar UNKNOWN_WORDS_FILE = sidecar_file"
  by code_simp+

lemma names_distinct:
  "known_file \<noteq> unknown_file" "known_file \<noteq> sidecar_file" "unknown_file \<noteq> sidecar_file"
  by code_simp+

lemma resolve_names:
  "resolve files KNOWN_WORDS_FILE = File known_file"
  "resolve files UNKNOWN_WORDS_FILE = File unknown_file"
  "resolve files (sidecar UNKNOWN_WORDS_FILE) = File sidecar_file"
proof -
  have n: "file_name known_file" "file_name unknown_file" "file_name sidecar_file"
    by code_simp+
  show "resolve files KNOWN_WORDS_FILE = File known_file"
    unfolding file_names(1) by (rule resolve_file_name[OF n(1)])
  show "resolve files UNKNOWN_WORDS_FILE = File unknown_file"
    unfolding file_names(2) by (rule resolve_file_name[OF n(2)])
  show "resolve files (sidecar UNKNOWN_WORDS_FILE) = File sidecar_file"
    unfolding file_names(3) by (rule resolve_file_name[OF n(3)])
qed

lemma doubled_escape: "doubled f = escape f"
  by (induction f) (simp_all add: escape_def quotechar_def)

lemma writerow_csv_line: "writerow (row_of e) = csv_line e"
  by (simp add: writerow_def row_of_def csv_line_def quote_field_escape doubled_escape
        quotechar_def delimiter_def carriage_return_def newline_def)

lemma csv_text_unknown_text: "csv_text m = unknown_text m"
  by (induction m) (simp_all add: csv_text_Cons writerow_csv_line unknown_text_def, simp add: csv_text_def)

lemma word_lines_texts:
  "word_lines (sorted_list_of_set K) = known_text K"
  "word_lines (sort (keys m)) = sidecar_text m"
  by (simp_all add: word_lines_def known_text_def sidecar_text_def keys_def newline_def)

subsection \<open>Persistence\<close>

lemma save_unknown_words_text:
  "save_unknown_words files UNKNOWN_WORDS_FILE m =
     (files\<lparr>entries := setitem (setitem (entries files) unknown_file (unknown_text m))
                         sidecar_file (sidecar_text m),
            journal := journal files @ [Wrote unknown_file (unknown_text m),
                         Wrote sidecar_file (sidecar_text m)]\<rparr>, None)"
  by (simp only: save_unknown_words_file[OF resolve_names(2,3)]
        csv_text_unknown_text word_lines_texts)

lemma finally_clause_files:
  "finally_clause files st =
     (files\<lparr>entries :=
              setitem (setitem (setitem (entries files) known_file (known_text (known st)))
                         unknown_file (unknown_text (unknown st)))
                sidecar_file (sidecar_text (unknown st)),
            journal := journal files @
              [Wrote known_file (known_text (known st)),
               Wrote unknown_file (unknown_text (unknown st)),
               Wrote sidecar_file (sidecar_text (unknown st))]\<rparr>, None)"
  by (simp add: finally_clause_def save_known_words_def open_write_file[OF resolve_names(1)]
        save_unknown_words_text word_lines_texts)

lemma classify_words_result:
  assumes "review fits prompt files wordlist ks = Inr (fl, st)" "fl \<noteq> Blocked"
  shows "classify_words fits prompt files wordlist ks =
     Some \<lparr>out_files = fst (finally_clause files st),
           out_value = (case fst (except_clause fits fl (screen st)) of
                          Some e \<Rightarrow> Inl e | None \<Rightarrow> Inr (unknown st)),
           out_screen = snd (except_clause fits fl (screen st))\<rparr>"
  using assms by (simp add: classify_words_def finally_clause_files split: prod.splits)

lemma getch_loop_keeps:
  "getch_loop w s ks st = (fl, st', ks') \<Longrightarrow>
   known st \<subseteq> known st' \<and> known st' \<subseteq> insert w (known st)
   \<and> set (keys (unknown st)) \<subseteq> set (keys (unknown st'))
   \<and> set (keys (unknown st')) \<subseteq> insert w (set (keys (unknown st)))
   \<and> screen st' = screen st"
  by (induction w s ks st rule: getch_loop.induct)
     (auto split: key.splits simp: setitem_keys_set)

lemma shown_words_append: "shown_words (a @ b) = shown_words a @ shown_words b"
  by (induction a rule: shown_words.induct) auto

lemma review_loop_keeps:
  "review_loop fits cnt tot nl ks st = (fl, st') \<Longrightarrow>
   known st \<subseteq> known st' \<and> known st' \<subseteq> known st \<union> set (keys nl)
   \<and> set (keys (unknown st)) \<subseteq> set (keys (unknown st'))
   \<and> set (keys (unknown st')) \<subseteq> set (keys (unknown st)) \<union> set (keys nl)
   \<and> set (shown_words (screen st')) \<subseteq> set (shown_words (screen st)) \<union> set (keys nl)"
proof (induction nl arbitrary: cnt ks st)
  case Nil
  then show ?case by auto
next
  case (Cons e nl)
  obtain word sent where e: "e = (word, sent)" by (cases e)
  have ke: "keys (e # nl) = word # keys nl" using e by (simp add: keys_def)
  show ?case
  proof (cases "fits (Shown (cnt + 1) tot word sent)")
    case False
    with Cons.prems e have "st' = st" by simp
    then show ?thesis by auto
  next
    case fits: True
    let ?st1 = "st\<lparr>screen := screen st @ [Shown (cnt + 1) tot word sent]\<rparr>"
    obtain fl1 st1 ks1 where g: "getch_loop word sent ks ?st1 = (fl1, st1, ks1)"
      by (metis prod_cases3)
    note k = getch_loop_keeps[OF g]
    show ?thesis
    proof (cases "fl1 = Completed")
      case True
      with Cons.prems e g fits have "review_loop fits (cnt + 1) tot nl ks1 st1 = (fl, st')"
        by simp
      from Cons.IH[OF this] k show ?thesis unfolding ke by (auto simp: shown_words_append)
    next
      case False
      with Cons.prems e g fits have "st' = st1" by (cases fl1) auto
      with k show ?thesis unfolding ke by (auto simp: shown_words_append)
    qed
  qed
qed





lemma getch_loop_interrupt:
  "CtrlC \<in> set ks \<Longrightarrow> getch_loop w s ks st = (fl, st', ks') \<Longrightarrow>
   fl \<noteq> Blocked \<and> (fl = Completed \<longrightarrow> CtrlC \<in> set ks')"
  by (induction w s ks st rule: getch_loop.induct) (auto split: key.splits)

lemma review_loop_interrupt:
  "CtrlC \<in> set ks \<Longrightarrow> fst (review_loop fits cnt tot nl ks st) \<noteq> Blocked"
proof (induction nl arbitrary: cnt ks st)
  case Nil
  show ?case by simp
next
  case (Cons e nl)
  obtain word sent where e: "e = (word, sent)" by (cases e)
  let ?st1 = "st\<lparr>screen := screen st @ [Shown (cnt + 1) tot word sent]\<rparr>"
  obtain fl st' ks' where g: "getch_loop word sent ks ?st1 = (fl, st', ks')"
    by (metis prod_cases3)
  from getch_loop_interrupt[OF Cons.prems g]
  have "fl \<noteq> Blocked" "fl = Completed \<longrightarrow> CtrlC \<in> set ks'" by auto
  then show ?case using e g Cons.IH[of ks' "cnt + 1" st'] by (cases fl) auto
qed

lemma classify_words_ends:
  "CtrlC \<in> set ks \<Longrightarrow> classify_words fits prompt files wordlist ks \<noteq> None"
proof (cases "review fits prompt files wordlist ks")
  case (Inl e)
  then show ?thesis by (simp add: classify_words_def)
next
  case (Inr r)
  assume ki: "CtrlC \<in> set ks"
  obtain fl st where r: "r = (fl, st)" by (cases r)
  have "fl \<noteq> Blocked"
    using Inr r review_loop_interrupt[OF ki, of fits]
    by (auto simp: review_def Let_def split: sum.splits option.splits) (metis fst_conv)
  with Inr r show ?thesis by (simp add: classify_words_result)
qed

text \<open>A session of three words in an empty directory: the first is known, the second
  unknown after a stray key, and the user interrupts at the third.\<close>

definition wide_window :: "screen_event \<Rightarrow> bool" where
  "wide_window ev = True"




subsection \<open>Deduplication\<close>

text \<open>
  The words of the other documents' sidecar files: of the files of the working
  directory whose name ends in \<open>.words\<close>, the sidecar of this document left out.
  (An entry is a file of the directory when its name can be the name of a file: no
  \<open>/\<close> and no NUL character in it, and at most 255 bytes.)
\<close>

definition other_sidecar_words :: "fs \<Rightarrow> string set" where
  "other_sidecar_words files =
     \<Union> (set (map (\<lambda>(name, content). set (map strip (text_mode_lines content)))
            (filter (\<lambda>(name, content). CHR ''/'' \<notin> set name \<and> CHR 0x00 \<notin> set name
                        \<and> utf8_length name \<le> 255
                        \<and> drop (length name - 6) name = ''.words''
                        \<and> name \<noteq> sidecar_file
                        \<and> map_of (entries files) name = Some content)
               (entries files))))"

lemma newlist_loop_keys:
  "w \<in> set (keys (newlist_loop wl K U O' acc)) \<Longrightarrow>
     w \<in> set (keys acc) \<or> (w \<notin> K \<and> \<not> contains U w \<and> w \<notin> O')"
proof (induction wl arbitrary: acc)
  case Nil
  then show ?case by simp
next
  case (Cons e wl)
  obtain word v where e: "e = (word, v)" by (cases e)
  show ?case
  proof (cases "word \<in> K \<or> contains U word \<or> word \<in> O'")
    case True
    with Cons.prems e have "w \<in> set (keys (newlist_loop wl K U O' acc))" by simp
    then show ?thesis by (rule Cons.IH)
  next
    case False
    with Cons.prems e have "w \<in> set (keys (newlist_loop wl K U O' (setitem acc word v)))"
      by simp
    from Cons.IH[OF this] False show ?thesis by (auto simp: setitem_keys_set)
  qed
qed

lemma otherbook_loop_mono: "acc \<subseteq> otherbook_loop p fl acc"
proof (induction fl arbitrary: acc)
  case Nil
  show ?case by simp
next
  case (Cons e fl)
  obtain f c where e: "e = (f, c)" by (cases e)
  show ?case using Cons.IH[of acc] Cons.IH[of "acc \<union> set (map strip (text_mode_lines c))"]
    unfolding e by auto
qed

lemma otherbook_loop_contains:
  "(f, c) \<in> set fl \<Longrightarrow> f \<noteq> path_name p \<Longrightarrow>
   set (map strip (text_mode_lines c)) \<subseteq> otherbook_loop p fl acc"
proof (induction fl arbitrary: acc)
  case Nil
  then show ?case by simp
next
  case (Cons e fl)
  show ?case
  proof (cases "e = (f, c)")
    case True
    have "acc \<union> set (map strip (text_mode_lines c))
            \<subseteq> otherbook_loop p fl (acc \<union> set (map strip (text_mode_lines c)))"
      by (rule otherbook_loop_mono)
    with True Cons.prems show ?thesis by auto
  next
    case False
    with Cons.prems have "(f, c) \<in> set fl" by auto
    from Cons.IH[OF this Cons.prems(2)] show ?thesis by (cases e) auto
  qed
qed

lemma other_sidecar_words_loaded:
  "other_sidecar_words files \<subseteq> load_otherbook_words files UNKNOWN_WORDS_FILE"
proof
  fix w
  assume "w \<in> other_sidecar_words files"
  then obtain name content where nc: "(name, content) \<in> set (entries files)"
    "CHR ''/'' \<notin> set name" "drop (length name - 6) name = ''.words''"
    "map_of (entries files) name = Some content"
    "w \<in> set (map strip (text_mode_lines content))"
    and nul: "CHR 0x00 \<notin> set name" and short: "utf8_length name \<le> 255"
    by (auto simp: other_sidecar_words_def)
  have len: "6 \<le> length name"
  proof (rule ccontr)
    assume "\<not> 6 \<le> length name"
    then have "drop (length name - 6) name = name" by simp
    with nc(3) have "length name = 6" by simp
    with \<open>\<not> 6 \<le> length name\<close> show False by simp
  qed
  then have fn: "file_name name"
    using nc(2) nul short by (auto simp: file_name_def NAME_MAX_def)
  have ew: "endswith name ''.words''"
    using len nc(3) by (simp add: endswith_def eval_nat_numeral)
  have g: "(name, content) \<in> set (glob_words files)"
    using nc(1,4) fn ew by (simp add: glob_words_def getitem_dict_def)
  have "path_name UNKNOWN_WORDS_FILE = unknown_file" by code_simp
  moreover have "\<not> endswith unknown_file ''.words''" by code_simp
  ultimately have "name \<noteq> path_name UNKNOWN_WORDS_FILE" using ew by auto
  from otherbook_loop_contains[OF g this, of "{}"] nc(5)
  show "w \<in> load_otherbook_words files UNKNOWN_WORDS_FILE"
    by (auto simp: load_otherbook_words_def)
qed

text \<open>
  C5, as the code has it. Every word presented is in none of the three collections
  loaded at the start. A word of the known set or of the unknown keys that is in
  another document's sidecar file was there before the session, in the known-words
  file or in the CSV: classification adds no such word.
\<close>

theorem classify_words_dedup:
  assumes "review fits prompt files wordlist ks = Inr (fl, st)"
    and "load_known_words files KNOWN_WORDS_FILE = Inr known0"
    and "load_unknown_words files UNKNOWN_WORDS_FILE = Inr unknown0"
  shows "(\<forall>w \<in> set (shown_words (screen st)).
             w \<notin> known0 \<and> w \<notin> set (keys unknown0) \<and> w \<notin> other_sidecar_words files)
         \<and> (\<forall>w \<in> known st \<union> set (keys (unknown st)).
             w \<in> other_sidecar_words files \<longrightarrow> w \<in> known0 \<union> set (keys unknown0))"
proof -
  let ?O = "load_otherbook_words files UNKNOWN_WORDS_FILE"
  let ?nl = "newlist_loop wordlist known0 unknown0 ?O []"
  let ?st0 = "\<lparr>known = known0, unknown = unknown0, screen = []\<rparr>"
  from assms have rl: "review_loop fits 0 (length ?nl) ?nl ks ?st0 = (fl, st)"
    by (simp add: review_def Let_def split: option.splits)
  have nl: "set (keys ?nl) \<subseteq> {w. w \<notin> known0 \<and> w \<notin> set (keys unknown0) \<and> w \<notin> ?O}"
    using newlist_loop_keys[of _ wordlist known0 unknown0 ?O "[]"]
    by (auto simp: keys_def contains_def)
  from review_loop_keeps[OF rl] nl other_sidecar_words_loaded[of files]
  show ?thesis by auto
qed

text \<open>
  A session in which one word is known already, one is in another document's sidecar,
  and the third is presented.
\<close>

definition shared_directory :: fs where
  "shared_directory =
     \<lparr>cwd = [''home'', ''reader''],
      entries = [(known_file, ''apple'' @ [newline]), (''other.words'', ''pear'' @ [newline])],
      journal = []\<rparr>"

theorem classify_words_dedup_witness:
  "review wide_window None shared_directory
     [(''apple'', ''An apple''), (''pear'', ''A pear''), (''quick'', ''The quick fox'')]
     [KEY_RIGHT]
   = Inr (Completed,
          \<lparr>known = set [''apple''],
           unknown = [(''quick'', \<lparr>translation = [], sentence = ''The quick fox''\<rparr>)],
           screen = [Shown 1 1 ''quick'' ''The quick fox'']\<rparr>)
   \<and> load_known_words shared_directory KNOWN_WORDS_FILE = Inr (set [''apple''])
   \<and> load_unknown_words shared_directory UNKNOWN_WORDS_FILE = Inr []
   \<and> ''pear'' \<in> other_sidecar_words shared_directory
   \<and> ''quick'' \<notin> other_sidecar_words shared_directory"
proof -
  let ?W = "[(''apple'', ''An apple''), (''pear'', ''A pear''), (''quick'', ''The quick fox'')]"
  let ?st = "\<lparr>known = set [''apple''],
           unknown = [(''quick'', \<lparr>translation = [], sentence = ''The quick fox''\<rparr>)],
           screen = [Shown 1 1 ''quick'' ''The quick fox'']\<rparr>"
  have h1: "review wide_window None shared_directory ?W [KEY_RIGHT] = Inr (Completed, ?st)"
    by code_simp
  have h2: "load_known_words shared_directory KNOWN_WORDS_FILE = Inr (set [''apple''])"
    by code_simp
  have h3: "load_unknown_words shared_directory UNKNOWN_WORDS_FILE = Inr []"
    by code_simp
  have p: "''pear'' \<in> other_sidecar_words shared_directory" by code_simp
  from classify_words_dedup[OF h1 h2 h3]
  have "\<forall>w \<in> set (shown_words (screen ?st)). w \<notin> other_sidecar_words shared_directory"
    by blast
  then have q: "''quick'' \<notin> other_sidecar_words shared_directory" by simp
  from h1 h2 h3 p q show ?thesis by (intro conjI)
qed

text \<open>
  C5, as stated, says that after classification no known or unknown word is in another
  document's sidecar. A word that the known-words file and another sidecar share at
  the start is still a known word at the end.
\<close>

definition overlapping_directory :: fs where
  "overlapping_directory =
     \<lparr>cwd = [''home'', ''reader''],
      entries = [(known_file, ''apple'' @ [newline]), (''other.words'', ''apple'' @ [newline])],
      journal = []\<rparr>"

theorem known_word_in_other_sidecar_stays:
  "review wide_window None overlapping_directory [] []
     = Inr (Completed, \<lparr>known = set [''apple''], unknown = [], screen = []\<rparr>)
   \<and> classify_words wide_window None overlapping_directory [] []
     = Some \<lparr>out_files =
               \<lparr>cwd = [''home'', ''reader''],
                entries = [(known_file, ''apple'' @ [newline]),
                           (''other.words'', ''apple'' @ [newline]),
                           (unknown_file, []), (sidecar_file, [])],
                journal = [Wrote known_file (''apple'' @ [newline]), Wrote unknown_file [],
                           Wrote sidecar_file []]\<rparr>,
             out_value = Inr [], out_screen = []\<rparr>
   \<and> ''apple'' \<in> other_sidecar_words overlapping_directory"
  by code_simp

section \<open>The translator\<close>

text \<open>
  The translation service is a parameter: for a word it gives the translation
  (\<open>Inr\<close>) or raises an \<open>Exception\<close> with a message (\<open>Inl\<close>). An interruption
  during a call is not an \<open>Exception\<close> and is not modelled. The calls of the
  service and the two kinds of printed lines go to the journal of the file system, where
  \<open>save_unknown_words\<close> then records the files it writes.
\<close>

record translator_state =
  store :: "(string, details) dict"
  trace :: "io_event list"

text \<open>
  The loop walks the items of the dictionary and assigns to the entry of the word it
  is at.
\<close>

fun translate_loop ::
  "(string \<Rightarrow> string + string) \<Rightarrow> (string \<times> details) list \<Rightarrow> translator_state
     \<Rightarrow> translator_state" where
  "translate_loop translate [] st = st"
| "translate_loop translate ((word, d) # rest) st =
     (if translation d = [] then
        (case translate word of
           Inr t \<Rightarrow>
             translate_loop translate rest
               (st\<lparr>store := setitem (store st) word (d\<lparr>translation := t\<rparr>),
                   trace := trace st @ [Called word, Printed_translation word t]\<rparr>)
         | Inl e \<Rightarrow>
             translate_loop translate rest
               (st\<lparr>trace := trace st @ [Called word, Printed_error word e]\<rparr>))
      else translate_loop translate rest st)"

text \<open>
  \<open>translate_words\<close> leaves a file system and the dictionary it was given, updated
  in place, and raises what \<open>save_unknown_words\<close> raises, if anything.
\<close>

definition translate_words ::
  "(string \<Rightarrow> string + string) \<Rightarrow> fs \<Rightarrow> (string, details) dict
     \<Rightarrow> fs \<times> (string, details) dict \<times> py_error option" where
  "translate_words translate files unknown_words =
     (let st = translate_loop translate unknown_words
                 \<lparr>store = unknown_words, trace = journal files\<rparr>
      in case save_unknown_words (files\<lparr>journal := trace st\<rparr>) UNKNOWN_WORDS_FILE (store st) of
           (files', err) \<Rightarrow> (files', store st, err))"

text \<open>
  What the specification speaks of: the words the service was called for, the files
  written, the entries that lack a translation, and what becomes of an entry.
\<close>

fun called_words :: "io_event list \<Rightarrow> string list" where
  "called_words [] = []"
| "called_words (Called w # evs) = w # called_words evs"
| "called_words (ev # evs) = called_words evs"

fun written_files :: "io_event list \<Rightarrow> string list" where
  "written_files [] = []"
| "written_files (Wrote name content # evs) = name # written_files evs"
| "written_files (ev # evs) = written_files evs"

definition lacking :: "(string, details) dict \<Rightarrow> string list" where
  "lacking unknown_words = map fst (filter (\<lambda>(w, d). translation d = []) unknown_words)"

definition translated :: "(string \<Rightarrow> string + string) \<Rightarrow> string \<times> details \<Rightarrow> string \<times> details" where
  "translated translate e =
     (if translation (snd e) = [] then
        (case translate (fst e) of
           Inr t \<Rightarrow> (fst e, (snd e)\<lparr>translation := t\<rparr>)
         | Inl err \<Rightarrow> e)
      else e)"

definition entry_events :: "(string \<Rightarrow> string + string) \<Rightarrow> string \<times> details \<Rightarrow> io_event list" where
  "entry_events translate e =
     (if translation (snd e) = [] then
        (case translate (fst e) of
           Inr t \<Rightarrow> [Called (fst e), Printed_translation (fst e) t]
         | Inl err \<Rightarrow> [Called (fst e), Printed_error (fst e) err])
      else [])"

lemma entry_kept:
  "translation d \<noteq> [] \<Longrightarrow> translated tr (w, d) = (w, d)"
  "translation d \<noteq> [] \<Longrightarrow> entry_events tr (w, d) = []"
  by (simp_all add: translated_def entry_events_def)

lemma entry_failed:
  "translation d = [] \<Longrightarrow> tr w = Inl err \<Longrightarrow> translated tr (w, d) = (w, d)"
  "translation d = [] \<Longrightarrow> tr w = Inl err \<Longrightarrow>
     entry_events tr (w, d) = [Called w, Printed_error w err]"
  by (simp_all add: translated_def entry_events_def)

lemma entry_filled:
  "translation d = [] \<Longrightarrow> tr w = Inr t \<Longrightarrow>
     translated tr (w, d) = (w, d\<lparr>translation := t\<rparr>)"
  "translation d = [] \<Longrightarrow> tr w = Inr t \<Longrightarrow>
     entry_events tr (w, d) = [Called w, Printed_translation w t]"
  by (simp_all add: translated_def entry_events_def)

lemma translate_loop_eq:
  "distinct (keys (pre @ rest)) \<Longrightarrow> store st = pre @ rest \<Longrightarrow>
   translate_loop tr rest st =
     st\<lparr>store := pre @ map (translated tr) rest,
        trace := trace st @ concat (map (entry_events tr) rest)\<rparr>"
proof (induction rest arbitrary: pre st)
  case Nil
  then show ?case by simp
next
  case (Cons e rest)
  obtain word d where e: "e = (word, d)" by (cases e)
  have new: "word \<notin> set (keys pre)" using Cons.prems(1) e by (auto simp: keys_def)
  show ?case
  proof (cases "translation d = []")
    case False
    have "translate_loop tr (e # rest) st = translate_loop tr rest st" using False e by simp
    also have "\<dots> = st\<lparr>store := (pre @ [e]) @ map (translated tr) rest,
        trace := trace st @ concat (map (entry_events tr) rest)\<rparr>"
      by (rule Cons.IH) (use Cons.prems in auto)
    finally show ?thesis using False e by (simp add: entry_kept)
  next
    case True
    show ?thesis
    proof (cases "tr word")
      case (Inl err)
      let ?st1 = "st\<lparr>trace := trace st @ [Called word, Printed_error word err]\<rparr>"
      have "translate_loop tr (e # rest) st = translate_loop tr rest ?st1"
        using True Inl e by simp
      also have "\<dots> = ?st1\<lparr>store := (pre @ [e]) @ map (translated tr) rest,
          trace := trace ?st1 @ concat (map (entry_events tr) rest)\<rparr>"
        by (rule Cons.IH) (use Cons.prems in auto)
      finally show ?thesis using True Inl e by (simp add: entry_failed)
    next
      case (Inr t)
      let ?d = "d\<lparr>translation := t\<rparr>"
      let ?st1 = "st\<lparr>store := setitem (store st) word ?d,
                   trace := trace st @ [Called word, Printed_translation word t]\<rparr>"
      have s1: "store ?st1 = (pre @ [(word, ?d)]) @ rest"
        using Cons.prems(2) e setitem_middle[OF new] by simp
      have d1: "distinct (keys ((pre @ [(word, ?d)]) @ rest))"
        using Cons.prems(1) e by (simp add: keys_def)
      have "translate_loop tr (e # rest) st = translate_loop tr rest ?st1"
        using True Inr e by simp
      also have "\<dots> = ?st1\<lparr>store := (pre @ [(word, ?d)]) @ map (translated tr) rest,
          trace := trace ?st1 @ concat (map (entry_events tr) rest)\<rparr>"
        by (rule Cons.IH[OF d1 s1])
      finally show ?thesis using True Inr e by (simp add: entry_filled)
    qed
  qed
qed

lemma translate_words_eq:
  "distinct (keys uw) \<Longrightarrow>
   translate_words tr files uw =
     (files\<lparr>entries := setitem (setitem (entries files) unknown_file
                           (unknown_text (map (translated tr) uw)))
                         sidecar_file (sidecar_text (map (translated tr) uw)),
            journal := journal files @ concat (map (entry_events tr) uw) @
              [Wrote unknown_file (unknown_text (map (translated tr) uw)),
               Wrote sidecar_file (sidecar_text (map (translated tr) uw))]\<rparr>,
      map (translated tr) uw, None)"
  using translate_loop_eq[of "[]" uw "\<lparr>store = uw, trace = journal files\<rparr>" tr]
  by (simp add: translate_words_def Let_def save_unknown_words_text)

lemma called_words_append: "called_words (a @ b) = called_words a @ called_words b"
  by (induction a rule: called_words.induct) auto

lemma written_files_append: "written_files (a @ b) = written_files a @ written_files b"
  by (induction a rule: written_files.induct) auto

lemma called_entry_events:
  "called_words (concat (map (entry_events tr) uw)) = lacking uw"
proof (induction uw)
  case Nil
  show ?case by (simp add: lacking_def)
next
  case (Cons e uw)
  obtain w d where e: "e = (w, d)" by (cases e)
  have "called_words (entry_events tr (w, d)) = (if translation d = [] then [w] else [])"
    by (cases "tr w") (simp_all add: entry_kept entry_failed entry_filled)
  then show ?case using Cons.IH e by (simp add: called_words_append lacking_def)
qed

lemma written_entry_events: "written_files (concat (map (entry_events tr) uw)) = []"
proof (induction uw)
  case Nil
  show ?case by simp
next
  case (Cons e uw)
  obtain w d where e: "e = (w, d)" by (cases e)
  have "written_files (entry_events tr (w, d)) = []"
    by (cases "tr w"; cases "translation d = []")
       (simp_all add: entry_kept entry_failed entry_filled)
  then show ?case using Cons.IH e by (simp add: written_files_append)
qed

lemma keys_translated: "keys (map (translated tr) uw) = keys uw"
  by (induction uw) (auto simp: keys_def translated_def split: sum.splits)

lemma getitem_translated:
  assumes "distinct (keys uw)" "(w, d) \<in> set uw"
  shows "getitem_dict (map (translated tr) uw) w = Some (snd (translated tr (w, d)))"
proof -
  have "map fst (map (translated tr) uw) = map fst uw"
    using keys_translated[of tr uw] by (simp only: keys_def)
  then have "distinct (map fst (map (translated tr) uw))"
    using assms(1) by (simp only: keys_def)
  moreover have "fst (translated tr (w, d)) = w"
    by (simp add: translated_def split: sum.splits)
  then have "(w, snd (translated tr (w, d))) \<in> set (map (translated tr) uw)"
    using assms(2) by (metis image_eqI list.set_map prod.collapse)
  ultimately show ?thesis by (simp add: getitem_dict_def)
qed

lemma error_logged:
  "(w, d) \<in> set uw \<Longrightarrow> translation d = [] \<Longrightarrow> tr w = Inl err \<Longrightarrow>
   Printed_error w err \<in> set (concat (map (entry_events tr) uw))"
  using entry_failed(2)[of d tr w err] by force

text \<open>
  C7. \<open>translate_words\<close> does not raise. What it adds to the journal is the events
  of the loop and then the two files of the store, each written once: in the loop the
  service is called exactly for the entries whose translation is empty, in their
  order, and no file is written; an entry that has a translation is unchanged; when
  the service fails for a word the error is printed, the entry stays as it was, and
  the later entries are processed all the same. The CSV that is written after the loop
  holds the line of every entry of the store as it is after all entries, the sidecar
  its sorted words, and these are the texts of the two files afterwards.
\<close>

theorem translate_words_batch:
  assumes "distinct (keys unknown_words)"
    and "translate_words translate files unknown_words = (files', unknown', err)"
  shows "err = None
    \<and> unknown' = map (translated translate) unknown_words
    \<and> (\<forall>(w, d) \<in> set unknown_words. translation d \<noteq> [] \<longrightarrow>
          getitem_dict unknown' w = Some d)
    \<and> (\<exists>events.
          journal files' = journal files @ events @
            [Wrote unknown_file (unknown_text unknown'),
             Wrote sidecar_file (sidecar_text unknown')]
          \<and> called_words events = lacking unknown_words
          \<and> written_files events = []
          \<and> (\<forall>(w, d) \<in> set unknown_words. \<forall>e.
                translation d = [] \<and> translate w = Inl e \<longrightarrow>
                Printed_error w e \<in> set events \<and> getitem_dict unknown' w = Some d))
    \<and> map_of (entries files') unknown_file = Some (unknown_text unknown')
    \<and> map_of (entries files') sidecar_file = Some (sidecar_text unknown')"
proof -
  let ?u = "map (translated translate) unknown_words"
  let ?body = "concat (map (entry_events translate) unknown_words)"
  note eq = translate_words_eq[OF assms(1), of translate files]
  note t = assms(2)[unfolded eq prod.inject]
  note f = t[THEN conjunct1, symmetric] and u = t[THEN conjunct2, THEN conjunct1, symmetric]
    and er = t[THEN conjunct2, THEN conjunct2, symmetric]
  have j: "journal files' = journal files @ ?body @
            [Wrote unknown_file (unknown_text unknown'),
             Wrote sidecar_file (sidecar_text unknown')]"
    unfolding f u by simp
  have c: "called_words ?body = lacking unknown_words" by (rule called_entry_events)
  have w: "written_files ?body = []" by (rule written_entry_events)
  have k: "\<forall>(w, d) \<in> set unknown_words. translation d \<noteq> [] \<longrightarrow>
          getitem_dict unknown' w = Some d"
    unfolding u using getitem_translated[OF assms(1), of _ _ translate]
    by (auto simp: entry_kept)
  have e: "\<forall>(w, d) \<in> set unknown_words. \<forall>e.
          translation d = [] \<and> translate w = Inl e \<longrightarrow>
          Printed_error w e \<in> set ?body \<and> getitem_dict unknown' w = Some d"
    unfolding u using getitem_translated[OF assms(1), of _ _ translate]
    by (auto simp: entry_failed error_logged simp del: set_concat)
  have m: "map_of (entries files') unknown_file = Some (unknown_text unknown')"
    "map_of (entries files') sidecar_file = Some (sidecar_text unknown')"
    unfolding f u using names_distinct by (simp_all add: map_of_setitem)
  from j c w e have "\<exists>events.
          journal files' = journal files @ events @
            [Wrote unknown_file (unknown_text unknown'),
             Wrote sidecar_file (sidecar_text unknown')]
          \<and> called_words events = lacking unknown_words
          \<and> written_files events = []
          \<and> (\<forall>(w, d) \<in> set unknown_words. \<forall>e.
                translation d = [] \<and> translate w = Inl e \<longrightarrow>
                Printed_error w e \<in> set events \<and> getitem_dict unknown' w = Some d)"
    by (intro exI[of _ ?body] conjI)
  with er u k m show ?thesis by (intro conjI)
qed

text \<open>
  A store of four entries in an empty directory: the service fails for the second
  word, and the third has a translation already.
\<close>

definition sample_store :: "(string, details) dict" where
  "sample_store =
     [(''quick'', \<lparr>translation = [], sentence = ''s1''\<rparr>),
      (''brown'', \<lparr>translation = [], sentence = ''s2''\<rparr>),
      (''jumps'', \<lparr>translation = ''old'', sentence = ''s3''\<rparr>),
      (''lazy'', \<lparr>translation = [], sentence = ''s4''\<rparr>)]"

definition sample_service :: "string \<Rightarrow> string + string" where
  "sample_service w = (if w = ''brown'' then Inl ''timeout'' else Inr (''ru '' @ w))"

definition sample_translated :: "(string, details) dict" where
  "sample_translated =
     [(''quick'', \<lparr>translation = ''ru quick'', sentence = ''s1''\<rparr>),
      (''brown'', \<lparr>translation = [], sentence = ''s2''\<rparr>),
      (''jumps'', \<lparr>translation = ''old'', sentence = ''s3''\<rparr>),
      (''lazy'', \<lparr>translation = ''ru lazy'', sentence = ''s4''\<rparr>)]"

theorem translate_words_batch_witness:
  "distinct (keys sample_store)
   \<and> translate_words sample_service fresh_directory sample_store
     = (\<lparr>cwd = [''home'', ''reader''],
         entries = [(unknown_file, csv_text sample_translated),
                    (sidecar_file, word_lines [''brown'', ''jumps'', ''lazy'', ''quick''])],
         journal = [Called ''quick'', Printed_translation ''quick'' ''ru quick'',
                    Called ''brown'', Printed_error ''brown'' ''timeout'',
                    Called ''lazy'', Printed_translation ''lazy'' ''ru lazy'',
                    Wrote unknown_file (csv_text sample_translated),
                    Wrote sidecar_file (word_lines [''brown'', ''jumps'', ''lazy'', ''quick''])]\<rparr>,
        sample_translated, None)
   \<and> sample_translated = map (translated sample_service) sample_store
   \<and> map_of [(unknown_file, csv_text sample_translated),
              (sidecar_file, word_lines [''brown'', ''jumps'', ''lazy'', ''quick''])] sidecar_file
       = Some (sidecar_text sample_translated)"
proof -
  let ?F = "\<lparr>cwd = [''home'', ''reader''],
         entries = [(unknown_file, csv_text sample_translated),
                    (sidecar_file, word_lines [''brown'', ''jumps'', ''lazy'', ''quick''])],
         journal = [Called ''quick'', Printed_translation ''quick'' ''ru quick'',
                    Called ''brown'', Printed_error ''brown'' ''timeout'',
                    Called ''lazy'', Printed_translation ''lazy'' ''ru lazy'',
                    Wrote unknown_file (csv_text sample_translated),
                    Wrote sidecar_file (word_lines [''brown'', ''jumps'', ''lazy'', ''quick''])]\<rparr>"
  have h1: "distinct (keys sample_store)" by code_simp
  have h2: "translate_words sample_service fresh_directory sample_store
      = (?F, sample_translated, None)"
    by code_simp
  note batch = translate_words_batch[OF h1 h2]
  have a: "sample_translated = map (translated sample_service) sample_store"
    by (rule batch[THEN conjunct2, THEN conjunct1])
  have "map_of (entries ?F) sidecar_file = Some (sidecar_text sample_translated)"
    using batch by (elim conjE)
  then have b: "map_of [(unknown_file, csv_text sample_translated),
              (sidecar_file, word_lines [''brown'', ''jumps'', ''lazy'', ''quick''])] sidecar_file
       = Some (sidecar_text sample_translated)"
    by simp
  from h1 h2 a b show ?thesis by (intro conjI)
qed

section \<open>The flashcard exporter\<close>

text \<open>
  \<open>generate_unique_id\<close> is \<open>int(hashlib.md5(name.encode()).hexdigest()[:8], 16)\<close>.
  The hash function is a parameter \<open>md5\<close> that gives the digest of the encoded name
  as a word of 128 bits; \<open>hexdigest\<close> writes it as 32 hexadecimal digits, the most
  significant first. \<open>py_int16\<close> is \<open>int(s, 16)\<close> on strings of hexadecimal
  digits, which raises \<open>ValueError\<close> on the empty string and on any other character
  (signs, blanks and prefixes, which \<open>int\<close> also reads, do not occur in a digest).
\<close>

definition hex_digit :: "nat \<Rightarrow> char" where
  "hex_digit n = ''0123456789abcdef'' ! n"

definition hexdigest :: "128 word \<Rightarrow> string" where
  "hexdigest digest =
     map (\<lambda>i. hex_digit (unat (take_bit 4 (drop_bit (4 * (31 - i)) digest)))) [0..<32]"

definition digit_value :: "char \<Rightarrow> nat option" where
  "digit_value c =
     (if in_range 48 57 c then Some (cp c - 48)
      else if in_range 97 102 c then Some (cp c - 87)
      else if in_range 65 70 c then Some (cp c - 55)
      else None)"

fun int16_loop :: "nat \<Rightarrow> string \<Rightarrow> py_error + nat" where
  "int16_loop acc [] = Inr acc"
| "int16_loop acc (c # s) =
     (case digit_value c of
        None \<Rightarrow> Inl ValueError
      | Some v \<Rightarrow> int16_loop (acc * 16 + v) s)"

definition py_int16 :: "string \<Rightarrow> py_error + nat" where
  "py_int16 s = (if s = [] then Inl ValueError else int16_loop 0 s)"

definition generate_unique_id :: "(string \<Rightarrow> 128 word) \<Rightarrow> string \<Rightarrow> py_error + nat" where
  "generate_unique_id md5 name = py_int16 (take 8 (hexdigest (md5 name)))"

text \<open>
  What \<open>create_anki_deck_from_csv\<close> builds and writes: the deck with its identifier
  and name, the identifier and name of the model, the notes in the order they were
  added (each the list of its fields), and the name of the package file. The CSV file
  is opened in text mode, so the reader gets the lines with their endings translated;
  when it cannot be opened, or when the reader raises, the function raises and no
  package is written.
\<close>

record anki_package =
  pkg_deck_id :: nat
  pkg_deck_name :: string
  pkg_model_id :: nat
  pkg_model_name :: string
  pkg_notes :: "string list list"
  pkg_output_file :: string

fun notes_loop :: "string list list \<Rightarrow> anki_package \<Rightarrow> anki_package" where
  "notes_loop [] deck = deck"
| "notes_loop (row # rest) deck =
     (if length row < 3 then notes_loop rest deck
      else notes_loop rest (deck\<lparr>pkg_notes := pkg_notes deck @ [[row ! 0, row ! 1, row ! 2]]\<rparr>))"

definition create_anki_deck_from_csv ::
  "(string \<Rightarrow> 128 word) \<Rightarrow> fs \<Rightarrow> string \<Rightarrow> py_error + anki_package" where
  "create_anki_deck_from_csv md5 files csv_file =
     (let deck_name = fst (splitext (basename csv_file))
      in case generate_unique_id md5 (deck_name @ ''deck'') of
           Inl e \<Rightarrow> Inl e
         | Inr deck_id \<Rightarrow>
        (case generate_unique_id md5 (deck_name @ ''model'') of
           Inl e \<Rightarrow> Inl e
         | Inr model_id \<Rightarrow>
        (case open_read files csv_file of
           Inl e \<Rightarrow> Inl e
         | Inr content \<Rightarrow>
        (case csv_reader (text_mode_lines content) of
           Inl e \<Rightarrow> Inl e
         | Inr rows \<Rightarrow>
             Inr (notes_loop rows
                    \<lparr>pkg_deck_id = deck_id, pkg_deck_name = deck_name,
                     pkg_model_id = model_id, pkg_model_name = deck_name @ '' Model'',
                     pkg_notes = [], pkg_output_file = deck_name @ ''.apkg''\<rparr>)))))"

lemma digit_value_hex_all: "\<forall>n \<in> {0..<16}. digit_value (hex_digit n) = Some n"
  by code_simp

lemma digit_value_hex: "n < 16 \<Longrightarrow> digit_value (hex_digit n) = Some n"
  using digit_value_hex_all by simp

lemma nibble_less: "unat (take_bit 4 (w :: 128 word)) < 16"
proof -
  have "unat (take_bit 4 w) = take_bit 4 (unat w)" by (simp add: unsigned_take_bit_eq)
  also have "\<dots> < 2 ^ 4" by (rule take_bit_nat_less_exp)
  finally show ?thesis by simp
qed

lemma hexdigest_digits: "c \<in> set (hexdigest d) \<Longrightarrow> \<exists>n < 16. c = hex_digit n"
  using nibble_less by (auto simp: hexdigest_def)

lemma length_hexdigest: "length (hexdigest d) = 32"
  by (simp add: hexdigest_def)

lemma digit_value_less: "digit_value c = Some v \<Longrightarrow> v < 16"
  by (auto simp: digit_value_def in_range_def split: if_splits)

lemma int16_loop_total:
  "\<forall>c \<in> set s. \<exists>v. digit_value c = Some v \<Longrightarrow>
   \<exists>n. int16_loop acc s = Inr n \<and> n < (acc + 1) * 16 ^ length s"
proof (induction s arbitrary: acc)
  case Nil
  show ?case by simp
next
  case (Cons c s)
  then obtain v where v: "digit_value c = Some v" by auto
  then have "v < 16" by (rule digit_value_less)
  from Cons.IH[of "acc * 16 + v"] Cons.prems obtain n where
    n: "int16_loop (acc * 16 + v) s = Inr n" "n < (acc * 16 + v + 1) * 16 ^ length s"
    by auto
  have "(acc * 16 + v + 1) * 16 ^ length s \<le> ((acc + 1) * 16) * 16 ^ length s"
    using \<open>v < 16\<close> by (intro mult_le_mono1) simp
  with n(2) have "n < ((acc + 1) * 16) * 16 ^ length s" by (rule less_le_trans)
  also have "((acc + 1) * 16) * 16 ^ length s = (acc + 1) * 16 ^ length (c # s)"
    by (simp add: algebra_simps)
  finally show ?case using n(1) v by simp
qed

text \<open>The identifier is defined for every name, and it is a number of 32 bits.\<close>

lemma generate_unique_id_total:
  "\<exists>n. generate_unique_id md5 name = Inr n \<and> n < 2 ^ 32"
proof -
  let ?s = "take 8 (hexdigest (md5 name))"
  have len: "length ?s = 8" by (simp add: length_hexdigest)
  then have ne: "?s \<noteq> []" by auto
  have "\<forall>c \<in> set ?s. \<exists>v. digit_value c = Some v"
    using hexdigest_digits digit_value_hex by (metis in_set_takeD)
  from int16_loop_total[OF this, of 0] len ne show ?thesis
    by (simp add: generate_unique_id_def py_int16_def)
qed

text \<open>
  The identifier is the number that the first eight hexadecimal digits of the digest
  write, that is, the upper 32 bits of the digest.
\<close>

definition base16 :: "nat \<Rightarrow> nat \<Rightarrow> nat list" where
  "base16 k y = map (\<lambda>i. (y div 16 ^ (k - 1 - i)) mod 16) [0..<k]"

lemma base16_Suc: "base16 (Suc k) y = ((y div 16 ^ k) mod 16) # base16 k y"
proof -
  have "[0..<Suc k] = 0 # map Suc [0..<k]"
    by (simp add: upt_conv_Cons map_Suc_upt del: upt_Suc)
  then show ?thesis by (simp add: base16_def comp_def del: upt_Suc)
qed

lemma int16_loop_base16:
  "int16_loop acc (map hex_digit (base16 k y)) = Inr (acc * 16 ^ k + y mod 16 ^ k)"
proof (induction k arbitrary: acc)
  case 0
  show ?case by (simp add: base16_def)
next
  case (Suc k)
  have d: "digit_value (hex_digit ((y div 16 ^ k) mod 16)) = Some ((y div 16 ^ k) mod 16)"
    by (rule digit_value_hex) simp
  have "y mod (16 ^ k * 16) = 16 ^ k * (y div 16 ^ k mod 16) + y mod 16 ^ k"
    by (rule mod_mult2_eq)
  moreover have "(16::nat) ^ Suc k = 16 ^ k * 16" by simp
  ultimately have m: "y mod 16 ^ Suc k = 16 ^ k * (y div 16 ^ k mod 16) + y mod 16 ^ k"
    by (simp only:)
  have "int16_loop acc (map hex_digit (base16 (Suc k) y))
      = int16_loop (acc * 16 + y div 16 ^ k mod 16) (map hex_digit (base16 k y))"
    by (simp add: base16_Suc d)
  also have "\<dots> = Inr ((acc * 16 + y div 16 ^ k mod 16) * 16 ^ k + y mod 16 ^ k)"
    by (rule Suc.IH)
  also have "(acc * 16 + y div 16 ^ k mod 16) * 16 ^ k + y mod 16 ^ k
      = acc * 16 ^ Suc k + y mod 16 ^ Suc k"
    unfolding m by (simp add: algebra_simps)
  finally show ?case .
qed

lemma hexdigest_base16:
  "take 8 (hexdigest d) = map hex_digit (base16 8 (unat (drop_bit 96 d)))"
proof -
  have n: "unat (take_bit 4 (drop_bit (4 * (31 - i)) d)) = unat (drop_bit 96 d) div 16 ^ (7 - i) mod 16"
    if "i < 8" for i
  proof -
    have "unat (take_bit 4 (drop_bit (4 * (31 - i)) d))
        = take_bit 4 (drop_bit (4 * (31 - i)) (unat d))"
      by (simp only: unsigned_take_bit_eq unat_drop_bit_eq)
    then have "unat (take_bit 4 (drop_bit (4 * (31 - i)) d))
        = (unat d div 2 ^ (4 * (31 - i))) mod 16"
      by (simp add: take_bit_eq_mod drop_bit_eq_div)
    moreover have "unat (drop_bit 96 d) div 16 ^ (7 - i) = unat d div 2 ^ (96 + 4 * (7 - i))"
    proof -
      have "(16::nat) ^ (7 - i) = 2 ^ (4 * (7 - i))" by (simp add: power_mult)
      moreover have "unat (drop_bit 96 d) = unat d div 2 ^ 96"
        unfolding unat_drop_bit_eq by (rule drop_bit_eq_div)
      ultimately show ?thesis by (simp only: div_mult2_eq power_add)
    qed
    moreover have "4 * (31 - i) = 96 + 4 * (7 - i)" using that by simp
    ultimately show ?thesis by simp
  qed
  have "take 8 (hexdigest d) = map (\<lambda>i. hex_digit (unat (take_bit 4 (drop_bit (4 * (31 - i)) d)))) [0..<8]"
    by (simp add: hexdigest_def take_map)
  also have "\<dots> = map (\<lambda>i. hex_digit (unat (drop_bit 96 d) div 16 ^ (7 - i) mod 16)) [0..<8]"
    by (rule map_cong) (simp_all add: n)
  finally show ?thesis by (simp add: base16_def comp_def)
qed

lemma generate_unique_id_value:
  "generate_unique_id md5 name = Inr (unat (drop_bit 96 (md5 name)))"
proof -
  have "unat (drop_bit 96 (md5 name)) < 2 ^ 32"
  proof -
    have "unat (md5 name) < 2 ^ 128" using unsigned_less[of "md5 name"] by simp
    then have "unat (md5 name) < 2 ^ 32 * 2 ^ 96" by simp
    then have "unat (md5 name) div 2 ^ 96 < 2 ^ 32" by (rule less_mult_imp_div_less)
    moreover have "unat (drop_bit 96 (md5 name)) = unat (md5 name) div 2 ^ 96"
      unfolding unat_drop_bit_eq by (rule drop_bit_eq_div)
    ultimately show ?thesis by (simp only:)
  qed
  then have "unat (drop_bit 96 (md5 name)) mod 16 ^ 8 = unat (drop_bit 96 (md5 name))" by simp
  moreover have "take 8 (hexdigest (md5 name)) \<noteq> []" by (simp add: hexdigest_base16 base16_def)
  ultimately show ?thesis
    using int16_loop_base16[of 0 8 "unat (drop_bit 96 (md5 name))"]
    by (simp add: generate_unique_id_def py_int16_def hexdigest_base16)
qed

lemma notes_loop_notes:
  "notes_loop rows deck =
     deck\<lparr>pkg_notes := pkg_notes deck @ map (take 3) (filter (\<lambda>row. 3 \<le> length row) rows)\<rparr>"
proof (induction rows arbitrary: deck)
  case Nil
  show ?case by simp
next
  case (Cons row rows)
  have "3 \<le> length row \<Longrightarrow> take 3 row = [row ! 0, row ! 1, row ! 2]"
    by (cases row; cases "tl row"; cases "tl (tl row)") auto
  then show ?case by (simp add: Cons.IH)
qed

text \<open>
  The run of the exporter when the file is opened: the identifiers come first, then
  the reader decides.
\<close>

lemma create_result:
  assumes "open_read files csv_file = Inr content"
  shows "\<exists>deck_id model_id.
           generate_unique_id md5 (fst (splitext (basename csv_file)) @ ''deck'') = Inr deck_id
           \<and> generate_unique_id md5 (fst (splitext (basename csv_file)) @ ''model'') = Inr model_id
           \<and> create_anki_deck_from_csv md5 files csv_file =
               (case csv_reader (text_mode_lines content) of
                  Inl e \<Rightarrow> Inl e
                | Inr rows \<Rightarrow>
                    Inr \<lparr>pkg_deck_id = deck_id,
                         pkg_deck_name = fst (splitext (basename csv_file)),
                         pkg_model_id = model_id,
                         pkg_model_name = fst (splitext (basename csv_file)) @ '' Model'',
                         pkg_notes = map (take 3) (filter (\<lambda>row. 3 \<le> length row) rows),
                         pkg_output_file = fst (splitext (basename csv_file)) @ ''.apkg''\<rparr>)"
proof -
  let ?name = "fst (splitext (basename csv_file))"
  obtain deck_id where d: "generate_unique_id md5 (?name @ ''deck'') = Inr deck_id"
    using generate_unique_id_total by blast
  obtain model_id where m: "generate_unique_id md5 (?name @ ''model'') = Inr model_id"
    using generate_unique_id_total by blast
  have "create_anki_deck_from_csv md5 files csv_file =
               (case csv_reader (text_mode_lines content) of
                  Inl e \<Rightarrow> Inl e
                | Inr rows \<Rightarrow>
                    Inr \<lparr>pkg_deck_id = deck_id, pkg_deck_name = ?name,
                         pkg_model_id = model_id, pkg_model_name = ?name @ '' Model'',
                         pkg_notes = map (take 3) (filter (\<lambda>row. 3 \<le> length row) rows),
                         pkg_output_file = ?name @ ''.apkg''\<rparr>)"
    using assms d m
    by (simp add: create_anki_deck_from_csv_def Let_def notes_loop_notes split: sum.splits)
  with d m show ?thesis by blast
qed

lemma create_deck:
  assumes "create_anki_deck_from_csv md5 files csv_file = Inr deck"
  shows "pkg_deck_name deck = fst (splitext (basename csv_file))
         \<and> generate_unique_id md5 (fst (splitext (basename csv_file)) @ ''deck'')
             = Inr (pkg_deck_id deck)
         \<and> generate_unique_id md5 (fst (splitext (basename csv_file)) @ ''model'')
             = Inr (pkg_model_id deck)"
proof -
  from assms obtain content where c: "open_read files csv_file = Inr content"
    by (auto simp: create_anki_deck_from_csv_def Let_def split: sum.splits)
  from create_result[OF c, of md5] obtain deck_id model_id where
    d: "generate_unique_id md5 (fst (splitext (basename csv_file)) @ ''deck'') = Inr deck_id"
    and m: "generate_unique_id md5 (fst (splitext (basename csv_file)) @ ''model'') = Inr model_id"
    and r: "create_anki_deck_from_csv md5 files csv_file =
               (case csv_reader (text_mode_lines content) of
                  Inl e \<Rightarrow> Inl e
                | Inr rows \<Rightarrow>
                    Inr \<lparr>pkg_deck_id = deck_id,
                         pkg_deck_name = fst (splitext (basename csv_file)),
                         pkg_model_id = model_id,
                         pkg_model_name = fst (splitext (basename csv_file)) @ '' Model'',
                         pkg_notes = map (take 3) (filter (\<lambda>row. 3 \<le> length row) rows),
                         pkg_output_file = fst (splitext (basename csv_file)) @ ''.apkg''\<rparr>)"
    by (elim exE conjE)
  show ?thesis
  proof (cases "csv_reader (text_mode_lines content)")
    case (Inl e)
    with r assms show ?thesis by simp
  next
    case (Inr rows)
    with r assms have "deck = \<lparr>pkg_deck_id = deck_id,
                         pkg_deck_name = fst (splitext (basename csv_file)),
                         pkg_model_id = model_id,
                         pkg_model_name = fst (splitext (basename csv_file)) @ '' Model'',
                         pkg_notes = map (take 3) (filter (\<lambda>row. 3 \<le> length row) rows),
                         pkg_output_file = fst (splitext (basename csv_file)) @ ''.apkg''\<rparr>"
      by simp
    with d m show ?thesis by simp
  qed
qed

lemma universal_length: "length (universal_from after_cr s) \<le> length s"
  by (induction s arbitrary: after_cr) (auto intro: le_SucI)

text \<open>A file of at most \<open>field_limit\<close> characters is read, and the package built.\<close>

lemma create_small_file:
  assumes "open_read files csv_file = Inr content" "length content \<le> field_limit"
  shows "\<exists>deck. create_anki_deck_from_csv md5 files csv_file = Inr deck"
proof -
  have "length (universal_newlines content) \<le> field_limit"
    using universal_length[of False content] assms(2) by (simp add: universal_newlines_def)
  then obtain rows where "csv_reader (text_mode_lines content) = Inr rows"
    unfolding text_mode_lines_def using csv_reader_total by blast
  with create_result[OF assms(1), of md5] show ?thesis by auto
qed


text \<open>
  C8. Two runs on files whose names give the same deck name, when both build a deck,
  give it the same deck identifier and the same model identifier, whatever the files
  contain; the deck identifier is \<open>generate_unique_id\<close> of the name followed by
  \<open>deck\<close>, the model identifier that of the name followed by \<open>model\<close>, that is,
  the upper 32 bits of the MD5 digest of these two strings, and the two strings differ.
  The identifiers are computed before the file is opened, and they are defined for
  every name and below \<open>2 ^ 32\<close> (\<open>generate_unique_id_total\<close>).
\<close>

theorem identifiers_from_name:
  assumes "fst (splitext (basename csv_file1)) = fst (splitext (basename csv_file2))"
    and "create_anki_deck_from_csv md5 files1 csv_file1 = Inr deck1"
    and "create_anki_deck_from_csv md5 files2 csv_file2 = Inr deck2"
  shows "pkg_deck_id deck1 = pkg_deck_id deck2
         \<and> pkg_model_id deck1 = pkg_model_id deck2
         \<and> pkg_deck_name deck1 = fst (splitext (basename csv_file1))
         \<and> generate_unique_id md5 (pkg_deck_name deck1 @ ''deck'') = Inr (pkg_deck_id deck1)
         \<and> generate_unique_id md5 (pkg_deck_name deck1 @ ''model'') = Inr (pkg_model_id deck1)
         \<and> pkg_deck_id deck1 = unat (drop_bit 96 (md5 (pkg_deck_name deck1 @ ''deck'')))
         \<and> pkg_model_id deck1 = unat (drop_bit 96 (md5 (pkg_deck_name deck1 @ ''model'')))
         \<and> pkg_deck_name deck1 @ ''deck'' \<noteq> pkg_deck_name deck1 @ ''model''"
  using create_deck[OF assms(2)] create_deck[OF assms(3)] assms(1)
  by (simp add: generate_unique_id_value)

text \<open>A file of three rows, the second with two fields only.\<close>

definition sample_csv :: string where
  "sample_csv = quote_field ''cat'' @ '','' @ quote_field ''kot'' @ '','' @ quote_field ''The cat sat.''
     @ [carriage_return, newline] @ ''x,y'' @ [newline] @ ''1,2,3,4''"

definition sample_directory :: fs where
  "sample_directory =
     \<lparr>cwd = [''home'', ''reader''], entries = [(''animals.csv'', sample_csv)], journal = []\<rparr>"

definition other_directory :: fs where
  "other_directory =
     \<lparr>cwd = [''home'', ''writer''], entries = [(''animals.csv'', [])], journal = []\<rparr>"

definition sample_md5 :: "string \<Rightarrow> 128 word" where
  "sample_md5 name = of_nat (length name)"



text \<open>Two directories with a file of the same name and different contents.\<close>

theorem identifiers_from_name_witness:
  "fst (splitext (basename ''./animals.csv'')) = fst (splitext (basename ''animals.csv''))
   \<and> create_anki_deck_from_csv sample_md5 sample_directory ''./animals.csv''
       = Inr \<lparr>pkg_deck_id = 0, pkg_deck_name = ''animals'', pkg_model_id = 0,
              pkg_model_name = ''animals Model'',
              pkg_notes = [[''cat'', ''kot'', ''The cat sat.''], [''1'', ''2'', ''3'']],
              pkg_output_file = ''animals.apkg''\<rparr>
   \<and> create_anki_deck_from_csv sample_md5 other_directory ''animals.csv''
       = Inr \<lparr>pkg_deck_id = 0, pkg_deck_name = ''animals'', pkg_model_id = 0,
              pkg_model_name = ''animals Model'', pkg_notes = [],
              pkg_output_file = ''animals.apkg''\<rparr>
   \<and> generate_unique_id sample_md5 (''animals'' @ ''deck'') = Inr 0
   \<and> generate_unique_id sample_md5 (''animals'' @ ''model'') = Inr 0"
proof -
  let ?d1 = "\<lparr>pkg_deck_id = 0, pkg_deck_name = ''animals'', pkg_model_id = 0,
              pkg_model_name = ''animals Model'',
              pkg_notes = [[''cat'', ''kot'', ''The cat sat.''], [''1'', ''2'', ''3'']],
              pkg_output_file = ''animals.apkg''\<rparr>"
  let ?d2 = "\<lparr>pkg_deck_id = 0, pkg_deck_name = ''animals'', pkg_model_id = 0,
              pkg_model_name = ''animals Model'', pkg_notes = [],
              pkg_output_file = ''animals.apkg''\<rparr>"
  have h1: "fst (splitext (basename ''./animals.csv'')) = fst (splitext (basename ''animals.csv''))"
    by code_simp
  have h2: "create_anki_deck_from_csv sample_md5 sample_directory ''./animals.csv'' = Inr ?d1"
    by code_simp
  have h3: "create_anki_deck_from_csv sample_md5 other_directory ''animals.csv'' = Inr ?d2"
    by code_simp
  note ids = identifiers_from_name[OF h1 h2 h3]
  have a: "generate_unique_id sample_md5 (''animals'' @ ''deck'') = Inr 0"
    using ids[THEN conjunct2, THEN conjunct2, THEN conjunct2, THEN conjunct1] by simp
  have b: "generate_unique_id sample_md5 (''animals'' @ ''model'') = Inr 0"
    using ids[THEN conjunct2, THEN conjunct2, THEN conjunct2, THEN conjunct2, THEN conjunct1]
    by simp
  from h1 h2 h3 a b show ?thesis by (intro conjI)
qed

end
